theory Spec2Isabelle
  imports Complex_Main "HOL-Library.Word" "HOL-Library.List_Lexorder" "HOL-Library.AList"
begin

section \<open>Errors\<close>

text \<open>
  The exceptions the modelled code raises. \<open>IntegerOverflow\<close> is
  \<^verbatim>\<open>Exception('integer overflow')\<close> of \<^verbatim>\<open>Sample.integrate_sparse\<close>;
  \<open>ConstructionError\<close> stands for the construction-time errors of the sparse
  merge operations.
\<close>

datatype error =
    IntegerOverflow
  | KeyError string
  | AssertionError
  | IndexError
  | ConstructionError

section \<open>Offset planning in \<^verbatim>\<open>Sample.integrate_sparse\<close>\<close>

type_synonym u64 = "64 word"

text \<open>
  An integrand (function) enters planning as the list of its blocks, and a block as its
  size expression \<^verbatim>\<open>f.size\<close>: the number of records the block contributes at
  element \<open>ielem\<close>, stored into a \<^verbatim>\<open>numpy.uint64\<close> table.
\<close>

type_synonym sizeexpr = "nat \<Rightarrow> u64"

text \<open>
  \<^verbatim>\<open>blocks = [(ifunc, ind, f) for ifunc, func in enumerate(funcs) for ind, f in function.blocks(func)]\<close>
\<close>

definition blocks :: "sizeexpr list list \<Rightarrow> (nat \<times> sizeexpr) list" where
  "blocks funcs = concat (map (\<lambda>(ifunc, func). map (\<lambda>f. (ifunc, f)) func) (enumerate 0 funcs))"

definition block2func :: "sizeexpr list list \<Rightarrow> nat list" where
  "block2func funcs = map fst (blocks funcs)"

text \<open>\<^verbatim>\<open>sizefunc = function.stack([f.size for ifunc, ind, f in blocks])\<close>: one evaluation
  at an element yields the sizes of all blocks there.\<close>

definition sizefunc :: "(nat \<times> sizeexpr) list \<Rightarrow> nat \<Rightarrow> u64 list" where
  "sizefunc bs ielem = map (\<lambda>(ifunc, f). f ielem) bs"

text \<open>\<^verbatim>\<open>offsets[:,col] = vals\<close>\<close>

definition set_column :: "u64 list list \<Rightarrow> nat \<Rightarrow> u64 list \<Rightarrow> u64 list list" where
  "set_column offsets col vals = map (\<lambda>(row, x). row[col := x]) (zip offsets vals)"

text \<open>
  The first pass. The state is the offset table together with the log of the
  \<^verbatim>\<open>sizefunc.eval\<close> calls made so far (the element each call was made for).
\<close>

definition first_pass_step :: "(nat \<times> sizeexpr) list \<Rightarrow> nat \<Rightarrow> u64 list list \<times> nat list
    \<Rightarrow> u64 list list \<times> nat list" where
  "first_pass_step bs ielem st =
     (case st of (offsets, evals) \<Rightarrow>
        (set_column offsets (ielem + 1) (sizefunc bs ielem), evals @ [ielem]))"

definition first_pass :: "(nat \<times> sizeexpr) list \<Rightarrow> nat \<Rightarrow> u64 list list \<times> nat list" where
  "first_pass bs nelems =
     (let offsets = replicate (length bs) (replicate (nelems + 1) 0)
      in if bs \<noteq> [] then fold (first_pass_step bs) [0..<nelems] (offsets, [])
         else (offsets, []))"

text \<open>\<^verbatim>\<open>numpy.cumsum(v, out=v)\<close> on \<^verbatim>\<open>uint64\<close>: the running sum wraps around.\<close>

fun cumsum_from :: "u64 \<Rightarrow> u64 list \<Rightarrow> u64 list" where
  "cumsum_from acc [] = []"
| "cumsum_from acc (x # xs) = (acc + x) # cumsum_from (acc + x) xs"

definition cumsum :: "u64 list \<Rightarrow> u64 list" where
  "cumsum v = cumsum_from 0 v"

text \<open>\<^verbatim>\<open>(v[1:] < v[:-1]).any()\<close>\<close>

definition decreases :: "u64 list \<Rightarrow> bool" where
  "decreases v = list_ex (\<lambda>(a, b). a < b) (zip (tl v) (butlast v))"

text \<open>
  One iteration of \<^verbatim>\<open>for iblock, ifunc in enumerate(block2func)\<close>.
\<close>

definition plan_step :: "nat \<times> nat \<Rightarrow> u64 list list \<times> u64 list
    \<Rightarrow> error + (u64 list list \<times> u64 list)" where
  "plan_step p st =
     (case p of (iblock, ifunc) \<Rightarrow> case st of (offsets, nvals) \<Rightarrow>
        if length offsets \<le> iblock \<or> length nvals \<le> ifunc \<or> offsets ! iblock = []
        then Inl IndexError
        else let v = cumsum ((offsets ! iblock)[0 := nvals ! ifunc])
             in if decreases v then Inl IntegerOverflow
                else Inr (offsets[iblock := v], nvals[ifunc := last v]))"

fun plan_loop :: "(nat \<times> nat) list \<Rightarrow> u64 list list \<times> u64 list
    \<Rightarrow> error + (u64 list list \<times> u64 list)" where
  "plan_loop [] st = Inr st"
| "plan_loop (p # ps) st =
     (case plan_step p st of Inl e \<Rightarrow> Inl e | Inr st' \<Rightarrow> plan_loop ps st')"

text \<open>
  Both passes of planning: the offset table and \<^verbatim>\<open>nvals\<close>, or the exception.
\<close>

definition plan_offsets :: "sizeexpr list list \<Rightarrow> nat \<Rightarrow> error + (u64 list list \<times> u64 list)" where
  "plan_offsets funcs nelems =
     plan_loop (enumerate 0 (block2func funcs))
       (fst (first_pass (blocks funcs) nelems), replicate (length funcs) 0)"

text \<open>
  Planning followed by the allocation
  \<^verbatim>\<open>datas = [parallel.shempty(n, ...) for ifunc, n in enumerate(nvals)]\<close>.
  The second component lists the sizes of the shared buffers allocated by the time the
  call either raised or reached the parallel loop.
\<close>

definition plan_and_allocate :: "sizeexpr list list \<Rightarrow> nat
    \<Rightarrow> (error + (u64 list list \<times> u64 list)) \<times> nat list" where
  "plan_and_allocate funcs nelems =
     (case plan_offsets funcs nelems of
        Inl e \<Rightarrow> (Inl e, [])
      | Inr (offsets, nvals) \<Rightarrow> (Inr (offsets, nvals), map unat nvals))"

text \<open>The output range \<^verbatim>\<open>[offsets[iblock,ielem], offsets[iblock,ielem+1])\<close> of an
  element in a block.\<close>

definition out_range :: "u64 list list \<Rightarrow> nat \<Rightarrow> nat \<Rightarrow> nat set" where
  "out_range offsets iblock ielem =
     {unat (offsets ! iblock ! ielem) ..< unat (offsets ! iblock ! (ielem + 1))}"

text \<open>
  The record counts as natural numbers, without wrap-around: what one block contributes
  over all elements, what an integrand contributes over all its blocks, and whether the
  cumulative count of some integrand leaves the range of the \<^verbatim>\<open>uint64\<close> counter.
\<close>

definition row_count :: "sizeexpr \<Rightarrow> nat \<Rightarrow> nat" where
  "row_count f nelems = sum_list (map (\<lambda>e. unat (f e)) [0..<nelems])"

definition func_count :: "sizeexpr list \<Rightarrow> nat \<Rightarrow> nat" where
  "func_count func nelems = sum_list (map (\<lambda>f. row_count f nelems) func)"

definition counts_wrap :: "sizeexpr list list \<Rightarrow> nat \<Rightarrow> bool" where
  "counts_wrap funcs nelems = list_ex (\<lambda>func. 2 ^ 64 \<le> func_count func nelems) funcs"

text \<open>The count that the blocks of integrand \<open>j\<close> contribute within a list of blocks.\<close>

definition tot :: "(nat \<times> sizeexpr) list \<Rightarrow> nat \<Rightarrow> nat \<Rightarrow> nat" where
  "tot bs nelems j = sum_list (map (\<lambda>(i, f). if i = j then row_count f nelems else 0) bs)"

section \<open>Sparse record collections and the merge algebra\<close>

text \<open>
  The module \<^verbatim>\<open>nutils/sparse.py\<close> is used by \<^verbatim>\<open>sample.py\<close> and exercised by
  \<^verbatim>\<open>tests/test_sparse.py\<close>, but is itself not among the sources; its operations are
  modelled from the specification (sections 3, 4.1 and 4.2).

  A collection is an ordered sequence of records \<open>(index tuple, value)\<close> with a declared
  shape and a declared value type. Values are rational numbers; a value stored under the
  integer type is an integer.
\<close>

datatype valuetype = IntType | FloatType

type_synonym srecord = "nat list \<times> rat"

record sparse =
  shape :: "nat list"
  dtype :: valuetype
  recs :: "srecord list"

definition ndim :: "sparse \<Rightarrow> nat" where
  "ndim data = length (shape data)"

definition indices :: "sparse \<Rightarrow> nat list list" where
  "indices data = map (\<lambda>k. map (\<lambda>r. fst r ! k) (recs data)) [0..<ndim data]"

definition values_of :: "sparse \<Rightarrow> rat list" where
  "values_of data = map snd (recs data)"

text \<open>Storing a number under a value type: the integer type truncates towards zero.\<close>

definition store :: "valuetype \<Rightarrow> rat \<Rightarrow> rat" where
  "store t v = (case t of FloatType \<Rightarrow> v
                | IntType \<Rightarrow> if 0 \<le> v then of_int \<lfloor>v\<rfloor> else of_int \<lceil>v\<rceil>)"

text \<open>The data model's invariant: indices in range for the declared shape, values of the
  declared type.\<close>

definition well_formed :: "sparse \<Rightarrow> bool" where
  "well_formed data =
     list_all (\<lambda>(idx, v). length idx = ndim data \<and> list_all2 (<) idx (shape data)
                 \<and> store (dtype data) v = v) (recs data)"

text \<open>
  Modelled from the spec: \<^verbatim>\<open>sparse.empty\<close> is missing from the sources; the call site
  in \<^verbatim>\<open>eval_integrals_sparse\<close> describes it as zeros that set the shape: a
  collection of the given shape without records.
\<close>

definition empty :: "nat list \<Rightarrow> sparse" where
  "empty shp = \<lparr>shape = shp, dtype = FloatType, recs = []\<rparr>"

subsection \<open>dedup\<close>

text \<open>
  Modelled from the spec: \<^verbatim>\<open>sparse.dedup\<close> is missing from the sources. Section 4.2:
  records are grouped by index tuple, values summed per group, output sorted ascending
  lexicographically; the input is processed in chunks of a configurable budget by an
  external merge: sort each chunk, merge the sorted runs, summing on key collision.
  The order on index tuples is the lexicographic order of \<open>List_Lexorder\<close>, axis 0 most
  significant.
\<close>

text \<open>Inserting a record into a sorted run, summing on key collision.\<close>

fun insert_rec :: "srecord \<Rightarrow> srecord list \<Rightarrow> srecord list" where
  "insert_rec r [] = [r]"
| "insert_rec r (r' # rs) =
     (if fst r < fst r' then r # r' # rs
      else if fst r = fst r' then (fst r', snd r' + snd r) # rs
      else r' # insert_rec r rs)"

definition sort_chunk :: "srecord list \<Rightarrow> srecord list" where
  "sort_chunk rs = fold insert_rec rs []"

text \<open>Merging two sorted runs, summing on key collision.\<close>

fun merge_runs :: "srecord list \<Rightarrow> srecord list \<Rightarrow> srecord list" where
  "merge_runs [] ys = ys"
| "merge_runs xs [] = xs"
| "merge_runs (x # xs) (y # ys) =
     (if fst x < fst y then x # merge_runs xs (y # ys)
      else if fst y < fst x then y # merge_runs (x # xs) ys
      else (fst x, snd x + snd y) # merge_runs xs ys)"

text \<open>Cutting the input into chunks of at most \<open>n\<close> records (at least one).\<close>

function chunks :: "nat \<Rightarrow> 'a list \<Rightarrow> 'a list list" where
  "chunks n xs = (if xs = [] then [] else take (max 1 n) xs # chunks n (drop (max 1 n) xs))"
  by pat_completeness auto
termination
  by (relation "measure (\<lambda>(n, xs). length xs)") auto

declare chunks.simps [simp del]

definition dedup_recs :: "nat \<Rightarrow> srecord list \<Rightarrow> srecord list" where
  "dedup_recs chunksize rs =
     fold (\<lambda>chunk run. merge_runs run (sort_chunk chunk)) (chunks chunksize rs) []"

text \<open>
  \<open>inplace\<close> decides whether the input buffer is reused; both variants yield equal
  content, which is all that is modelled.
\<close>

definition dedup :: "nat \<Rightarrow> sparse \<Rightarrow> bool \<Rightarrow> sparse" where
  "dedup chunksize data inplace = data\<lparr>recs := dedup_recs chunksize (recs data)\<rparr>"

text \<open>The sum of the values recorded under an index tuple.\<close>

definition total :: "nat list \<Rightarrow> srecord list \<Rightarrow> rat" where
  "total k rs = sum_list (map snd (filter (\<lambda>r. fst r = k) rs))"

subsection \<open>prune, toarray\<close>

text \<open>
  Modelled from the spec: \<^verbatim>\<open>sparse.prune\<close> is missing from the sources. Section 4.2:
  removes the records whose value is zero, preserving the order of the rest, without
  merging or sorting.
\<close>

definition prune :: "sparse \<Rightarrow> bool \<Rightarrow> sparse" where
  "prune data inplace = data\<lparr>recs := filter (\<lambda>r. snd r \<noteq> 0) (recs data)\<rparr>"

text \<open>A dense array: its shape and its entries in row-major order.\<close>

record dense =
  dshape :: "nat list"
  entries :: "rat list"

text \<open>All coordinates of a shape in row-major order.\<close>

fun coords :: "nat list \<Rightarrow> nat list list" where
  "coords [] = [[]]"
| "coords (n # ns) = concat (map (\<lambda>i. map (\<lambda>c. i # c) (coords ns)) [0..<n])"

text \<open>
  Modelled from the spec: \<^verbatim>\<open>sparse.toarray\<close> is missing from the sources. Section 4.2:
  \<open>dedup(data)\<close> materialised into a zero-initialised dense tensor of the declared
  shape; coordinates without a record are zero.
\<close>

definition toarray :: "nat \<Rightarrow> sparse \<Rightarrow> dense" where
  "toarray chunksize data =
     \<lparr>dshape = shape data,
      entries = map (\<lambda>c. case map_of (recs (dedup chunksize data False)) c of
                           None \<Rightarrow> 0 | Some v \<Rightarrow> v) (coords (shape data))\<rparr>"

subsection \<open>add\<close>

text \<open>
  Modelled from the spec: \<^verbatim>\<open>sparse.add\<close> is missing from the sources. Section 4.2:
  all inputs must have the same declared shape; the records are concatenated without
  merging or sorting; the value type of the result is the smallest type to which all
  inputs can be widened (integer and floating give floating). An empty list of inputs
  has no shape and is an error.
\<close>

definition result_type :: "valuetype list \<Rightarrow> valuetype" where
  "result_type ts = (if FloatType \<in> set ts then FloatType else IntType)"

definition add :: "sparse list \<Rightarrow> error + sparse" where
  "add datas =
     (case datas of
        [] \<Rightarrow> Inl ConstructionError
      | d # ds \<Rightarrow>
          if list_all (\<lambda>d'. shape d' = shape d) ds
          then Inr \<lparr>shape = shape d,
                    dtype = result_type (map dtype datas),
                    recs = concat (map (\<lambda>d'. map (\<lambda>(idx, v).
                              (idx, store (result_type (map dtype datas)) v)) (recs d')) datas)\<rparr>
          else Inl ConstructionError)"

subsection \<open>block\<close>

text \<open>
  Modelled from the spec: \<^verbatim>\<open>sparse.block\<close> is missing from the sources. Section 4.2:
  the structure is a rank-\<open>d\<close> nested arrangement (a sequence for rank 1, a sequence of
  sequences for rank 2, and so on) whose leaves are a collection or an absent marker.
  The leaves that share a position along an axis form a group; the present leaves of a
  group must agree on that axis' extent, and a group without present leaves or with
  disagreeing extents is a construction error. The output extent of an axis is the sum
  of its groups' extents, each leaf's indices are shifted by the extents of the preceding
  groups along every axis, and the leaves are concatenated in row-major traversal order.
  The spec leaves the value type of the result open; it is taken as for \<open>add\<close>.
\<close>

datatype 'a nested = Leaf 'a | Seq "'a nested list"

text \<open>The leaves in row-major traversal order, each with its position along every axis.\<close>

fun leaves :: "'a nested \<Rightarrow> (nat list \<times> 'a) list"
  and leaves_from :: "nat \<Rightarrow> 'a nested list \<Rightarrow> (nat list \<times> 'a) list" where
  "leaves (Leaf x) = [([], x)]"
| "leaves (Seq ss) = leaves_from 0 ss"
| "leaves_from i [] = []"
| "leaves_from i (s # ss) = map (\<lambda>(pos, x). (i # pos, x)) (leaves s) @ leaves_from (Suc i) ss"

text \<open>The rank of the arrangement: its nesting depth.\<close>

fun depth :: "'a nested \<Rightarrow> nat" where
  "depth (Leaf x) = 0"
| "depth (Seq []) = 1"
| "depth (Seq (s # ss)) = Suc (depth s)"

text \<open>The number of positions along axis \<open>k\<close>.\<close>

definition npos :: "(nat list \<times> 'a) list \<Rightarrow> nat \<Rightarrow> nat" where
  "npos lvs k = fold max (map (\<lambda>(pos, x). Suc (pos ! k)) lvs) 0"

text \<open>The extents along axis \<open>k\<close> of the present leaves at position \<open>p\<close> of that axis.\<close>

definition group_extents :: "(nat list \<times> sparse option) list \<Rightarrow> nat \<Rightarrow> nat \<Rightarrow> nat list" where
  "group_extents lvs k p =
     concat (map (\<lambda>(pos, leaf). case leaf of None \<Rightarrow> []
                    | Some data \<Rightarrow> if pos ! k = p then [shape data ! k] else []) lvs)"

text \<open>The extent of a group: defined when there is a present leaf and all present leaves
  agree.\<close>

definition group_extent :: "(nat list \<times> sparse option) list \<Rightarrow> nat \<Rightarrow> nat \<Rightarrow> nat option" where
  "group_extent lvs k p =
     (case remdups (group_extents lvs k p) of [n] \<Rightarrow> Some n | _ \<Rightarrow> None)"

definition axis_extents :: "(nat list \<times> sparse option) list \<Rightarrow> nat \<Rightarrow> nat option list" where
  "axis_extents lvs k = map (group_extent lvs k) [0..<npos lvs k]"

text \<open>Shifting a record of a leaf at position \<open>pos\<close>: along axis \<open>k\<close> by the extents of the
  groups before \<open>pos ! k\<close>.\<close>

definition shift_index :: "nat list list \<Rightarrow> nat list \<Rightarrow> nat list \<Rightarrow> nat list" where
  "shift_index exts pos idx =
     map (\<lambda>k. sum_list (take (pos ! k) (exts ! k)) + idx ! k) [0..<length exts]"

definition block :: "sparse option nested \<Rightarrow> error + sparse" where
  "block structure =
     (let lvs = leaves structure;
          d = depth structure;
          present = concat (map (\<lambda>(pos, leaf). case leaf of None \<Rightarrow> [] | Some data \<Rightarrow> [data]) lvs);
          exts = map (axis_extents lvs) [0..<d]
      in if \<not> list_all (\<lambda>(pos, leaf). length pos = d) lvs
            \<or> \<not> list_all (\<lambda>data. ndim data = d) present
            \<or> \<not> list_all (list_all (\<lambda>e. e \<noteq> None)) exts
         then Inl ConstructionError
         else let sizes = map (map the) exts;
                  t = result_type (map dtype present)
              in Inr \<lparr>shape = map sum_list sizes,
                       dtype = t,
                       recs = concat (map (\<lambda>(pos, leaf). case leaf of None \<Rightarrow> []
                                | Some data \<Rightarrow> map (\<lambda>(idx, v). (shift_index sizes pos idx, store t v))
                                                   (recs data)) lvs)\<rparr>)"

section \<open>Final materialisation: \<^verbatim>\<open>_convert\<close>\<close>

text \<open>
  The result of \<^verbatim>\<open>_convert\<close>: a dense array (\<^verbatim>\<open>sparse.toarray\<close>), a matrix object of
  the backend (\<^verbatim>\<open>matrix.fromsparse\<close>, an external collaborator and hence a parameter),
  or sparse data.
\<close>

datatype 'm converted = Array dense | Matrix 'm | Sparse sparse

definition convert :: "(sparse \<Rightarrow> bool \<Rightarrow> 'm) \<Rightarrow> nat \<Rightarrow> sparse \<Rightarrow> bool \<Rightarrow> 'm converted" where
  "convert fromsparse chunksize data inplace =
     (let nd = ndim data
      in if nd < 2 then Array (toarray chunksize data)
         else if nd = 2 then Matrix (fromsparse data inplace)
         else Sparse (prune (dedup chunksize data inplace) True))"

section \<open>Postponed integrals\<close>

text \<open>
  The integrands are objects of \<^verbatim>\<open>nutils.function\<close>, an external collaborator. What
  \<^verbatim>\<open>Integral\<close> uses of it is a parameter: the shape of a function, its simplification,
  the test for being identically zero, sum and negation, and the nodes it depends on.
\<close>

datatype node = Argument string "nat list" nat | Other

record 'f function_ops =
  fshape :: "'f \<Rightarrow> nat list"
  simplified :: "'f \<Rightarrow> 'f"
  iszero :: "'f \<Rightarrow> bool"
  fadd :: "'f \<Rightarrow> 'f \<Rightarrow> 'f"
  fneg :: "'f \<Rightarrow> 'f"
  dependencies :: "'f \<Rightarrow> node list"

text \<open>An \<^verbatim>\<open>Integral\<close>: the dictionary \<^verbatim>\<open>_integrands\<close> from samples to functions, in
  insertion order, and the shape.\<close>

record ('s, 'f) Integral =
  integrands :: "('s \<times> 'f) list"
  Ishape :: "nat list"

text \<open>Building a dictionary from items: a later item with the same key replaces the value.\<close>

definition to_dict :: "('k \<times> 'v) list \<Rightarrow> ('k \<times> 'v) list" where
  "to_dict items = fold (\<lambda>(k, v). AList.update k v) items []"

text \<open>
  \<^verbatim>\<open>Integral.__init__\<close>: the annotation simplifies every integrand, the assertion
  compares the shapes, and the integrands that are identically zero are dropped.
\<close>

definition Integral_init :: "'f function_ops \<Rightarrow> ('s \<times> 'f) list \<Rightarrow> nat list
    \<Rightarrow> error + ('s, 'f) Integral" where
  "Integral_init ops items shp =
     (let igs = map (\<lambda>(topo, func). (topo, simplified ops func)) (to_dict items)
      in if \<not> list_all (\<lambda>(topo, ig). fshape ops ig = shp) igs then Inl AssertionError
         else Inr \<lparr>integrands = filter (\<lambda>(topo, func). \<not> iszero ops func) igs, Ishape = shp\<rparr>)"

text \<open>The loop of \<^verbatim>\<open>Integral.__add__\<close> over \<^verbatim>\<open>other._integrands.items()\<close>.\<close>

definition merge_integrands :: "'f function_ops \<Rightarrow> ('s \<times> 'f) list \<Rightarrow> ('s \<times> 'f) list
    \<Rightarrow> ('s \<times> 'f) list" where
  "merge_integrands ops xs ys =
     fold (\<lambda>(di, integrand) acc.
             case map_of acc di of
               Some f \<Rightarrow> AList.update di (fadd ops f integrand) acc
             | None \<Rightarrow> AList.update di integrand acc) ys xs"

definition Integral_add :: "'f function_ops \<Rightarrow> ('s, 'f) Integral \<Rightarrow> ('s, 'f) Integral
    \<Rightarrow> error + ('s, 'f) Integral" where
  "Integral_add ops a b =
     (if Ishape a \<noteq> Ishape b then Inl AssertionError
      else Integral_init ops (merge_integrands ops (integrands a) (integrands b)) (Ishape a))"

definition Integral_neg :: "'f function_ops \<Rightarrow> ('s, 'f) Integral \<Rightarrow> error + ('s, 'f) Integral" where
  "Integral_neg ops a =
     Integral_init ops (map (\<lambda>(di, integrand). (di, fneg ops integrand)) (integrands a)) (Ishape a)"

definition Integral_sub :: "'f function_ops \<Rightarrow> ('s, 'f) Integral \<Rightarrow> ('s, 'f) Integral
    \<Rightarrow> error + ('s, 'f) Integral" where
  "Integral_sub ops a b =
     (case Integral_neg ops b of Inl e \<Rightarrow> Inl e | Inr nb \<Rightarrow> Integral_add ops a nb)"

text \<open>What the constructor makes of a term: simplified, and dropped when identically zero.\<close>

definition kept :: "'f function_ops \<Rightarrow> 'f option \<Rightarrow> 'f option" where
  "kept ops t = (case t of None \<Rightarrow> None
     | Some f \<Rightarrow> if iszero ops (simplified ops f) then None else Some (simplified ops f))"

text \<open>The merge of two terms of the same sample.\<close>

definition merged_term :: "'f function_ops \<Rightarrow> 'f option \<Rightarrow> 'f option \<Rightarrow> 'f option" where
  "merged_term ops s t =
     (case s of None \<Rightarrow> t
      | Some f \<Rightarrow> (case t of None \<Rightarrow> Some f | Some g \<Rightarrow> Some (fadd ops f g)))"

subsection \<open>\<^verbatim>\<open>Integral._argshape\<close> and \<^verbatim>\<open>Integral.contains\<close>\<close>

text \<open>Python's \<^verbatim>\<open>xs[:k]\<close>, where a negative \<open>k\<close> counts from the end.\<close>

definition py_prefix :: "int \<Rightarrow> 'a list \<Rightarrow> 'a list" where
  "py_prefix k xs = (if 0 \<le> k then take (nat k) xs else take (length xs - nat (- k)) xs)"

text \<open>The dependencies of \<^verbatim>\<open>function.Tuple(self._integrands.values())\<close>.\<close>

definition all_dependencies :: "'f function_ops \<Rightarrow> ('s, 'f) Integral \<Rightarrow> node list" where
  "all_dependencies ops a = concat (map (\<lambda>(di, func). dependencies ops func) (integrands a))"

text \<open>The set \<^verbatim>\<open>shapes\<close> of \<^verbatim>\<open>_argshape\<close>, as a list without duplicates.\<close>

definition arg_shapes :: "'f function_ops \<Rightarrow> ('s, 'f) Integral \<Rightarrow> string \<Rightarrow> nat list list" where
  "arg_shapes ops a name =
     remdups (concat (map (\<lambda>func. case func of
         Argument nm shp nderiv \<Rightarrow>
           if nm = name then [py_prefix (int (length shp) - int nderiv) shp] else []
       | Other \<Rightarrow> []) (all_dependencies ops a)))"

definition argshape :: "'f function_ops \<Rightarrow> ('s, 'f) Integral \<Rightarrow> string \<Rightarrow> error + nat list" where
  "argshape ops a name =
     (let shapes = arg_shapes ops a name
      in if shapes = [] then Inl (KeyError name)
         else if length shapes \<noteq> 1 then Inl AssertionError
         else Inr (hd shapes))"

definition contains :: "'f function_ops \<Rightarrow> ('s, 'f) Integral \<Rightarrow> string \<Rightarrow> error + bool" where
  "contains ops a name =
     (case argshape ops a name of
        Inl (KeyError k) \<Rightarrow> Inr False
      | Inl e \<Rightarrow> Inl e
      | Inr shp \<Rightarrow> Inr True)"

text \<open>The named free variable occurs in some term.\<close>

definition occurs :: "'f function_ops \<Rightarrow> ('s, 'f) Integral \<Rightarrow> string \<Rightarrow> bool" where
  "occurs ops a name =
     list_ex (\<lambda>func. case func of Argument nm shp nderiv \<Rightarrow> nm = name | Other \<Rightarrow> False)
       (all_dependencies ops a)"

subsection \<open>\<^verbatim>\<open>eval_integrals_sparse\<close>\<close>

text \<open>
  Modelled from the spec: \<^verbatim>\<open>util.gather\<close> is missing from the sources. Section 4.7:
  the (sample, integral) obligations are grouped by sample, so that each sample is
  visited once; groups are in order of first occurrence.
\<close>

definition gather :: "('k \<times> 'v) list \<Rightarrow> ('k \<times> 'v list) list" where
  "gather items =
     fold (\<lambda>(k, v) acc. case map_of acc k of
                           None \<Rightarrow> acc @ [(k, [v])]
                         | Some vs \<Rightarrow> AList.update k (vs @ [v]) acc) items []"

text \<open>\<^verbatim>\<open>integrals[iint]._integrands[sample]\<close>\<close>

definition getitem :: "('k \<times> 'v) list \<Rightarrow> 'k \<Rightarrow> error + 'v" where
  "getitem dict k = (case map_of dict k of None \<Rightarrow> Inl (KeyError ''sample'') | Some v \<Rightarrow> Inr v)"

fun sequence :: "(error + 'a) list \<Rightarrow> error + 'a list" where
  "sequence [] = Inr []"
| "sequence (x # xs) =
     (case x of Inl e \<Rightarrow> Inl e
      | Inr y \<Rightarrow> (case sequence xs of Inl e \<Rightarrow> Inl e | Inr ys \<Rightarrow> Inr (y # ys)))"

text \<open>\<^verbatim>\<open>for iint, retval in zip(iints, ...): retvals[iint].append(retval)\<close>\<close>

definition append_retvals :: "nat list \<Rightarrow> sparse list \<Rightarrow> sparse list list \<Rightarrow> sparse list list" where
  "append_retvals iints datas retvals =
     fold (\<lambda>(iint, retval) rv. rv[iint := rv ! iint @ [retval]]) (zip iints datas) retvals"

text \<open>
  The loop over the gathered samples. \<^verbatim>\<open>Sample.integrate_sparse\<close> evaluates the
  integrands through the function collaborator; it enters as the parameter \<open>integ\<close>,
  which for a sample and a list of integrands returns the sparse data or raises.
\<close>

fun eval_samples :: "('s \<Rightarrow> 'f list \<Rightarrow> error + sparse list) \<Rightarrow> ('s, 'f) Integral list
    \<Rightarrow> ('s \<times> nat list) list \<Rightarrow> sparse list list \<Rightarrow> error + sparse list list" where
  "eval_samples integ integrals [] retvals = Inr retvals"
| "eval_samples integ integrals ((sample, iints) # rest) retvals =
     (case sequence (map (\<lambda>iint. getitem (integrands (integrals ! iint)) sample) iints) of
        Inl e \<Rightarrow> Inl e
      | Inr funcs \<Rightarrow>
          (case integ sample funcs of
             Inl e \<Rightarrow> Inl e
           | Inr datas \<Rightarrow> eval_samples integ integrals rest (append_retvals iints datas retvals)))"

text \<open>The list \<^verbatim>\<open>retvals\<close> when the loop has finished.\<close>

definition eval_retvals :: "('s \<Rightarrow> 'f list \<Rightarrow> error + sparse list) \<Rightarrow> ('s, 'f) Integral list
    \<Rightarrow> error + sparse list list" where
  "eval_retvals integ integrals =
     eval_samples integ integrals
       (gather (concat (map (\<lambda>(iint, integral). map (\<lambda>(di, func). (di, iint)) (integrands integral))
                  (enumerate 0 integrals))))
       (map (\<lambda>integral. [empty (Ishape integral)]) integrals)"

definition eval_integrals_sparse :: "('s \<Rightarrow> 'f list \<Rightarrow> error + sparse list)
    \<Rightarrow> ('s, 'f) Integral list \<Rightarrow> error + sparse list" where
  "eval_integrals_sparse integ integrals =
     (case eval_retvals integ integrals of
        Inl e \<Rightarrow> Inl e
      | Inr retvals \<Rightarrow> sequence (map add retvals))"

text \<open>Every list of results is non-empty and holds data of its Integral's shape.\<close>

definition retvals_ok :: "('s, 'f) Integral list \<Rightarrow> sparse list list \<Rightarrow> bool" where
  "retvals_ok integrals retvals \<longleftrightarrow>
     length retvals = length integrals \<and>
     (\<forall>i < length integrals. retvals ! i \<noteq> [] \<and>
        (\<forall>d \<in> set (retvals ! i). shape d = Ishape (integrals ! i)))"

section \<open>Instances of the collaborators used in examples\<close>

text \<open>Constant scalar functions: a function is its value; it is identically zero when the
  value is zero.\<close>

definition const_ops :: "int function_ops" where
  "const_ops = \<lparr>fshape = (\<lambda>f. []), simplified = (\<lambda>f. f), iszero = (\<lambda>f. f = 0),
     fadd = (\<lambda>f g. f + g), fneg = (\<lambda>f. - f), dependencies = (\<lambda>f. [])\<rparr>"

text \<open>Functions given by the list of nodes they depend on.\<close>

definition dep_ops :: "node list function_ops" where
  "dep_ops = \<lparr>fshape = (\<lambda>f. []), simplified = (\<lambda>f. f), iszero = (\<lambda>f. False),
     fadd = (\<lambda>f g. f @ g), fneg = (\<lambda>f. f), dependencies = (\<lambda>f. f)\<rparr>"

text \<open>An integration that yields, for every integrand, one scalar record: the value of the
  integrand times the sample's index.\<close>

definition example_integ :: "nat \<Rightarrow> int list \<Rightarrow> error + sparse list" where
  "example_integ sample funcs =
     Inr (map (\<lambda>f. \<lparr>shape = [], dtype = FloatType, recs = [([], of_int f * of_nat sample)]\<rparr>) funcs)"

section \<open>Properties of offset planning\<close>

lemma length_cumsum_from [simp]: "length (cumsum_from acc v) = length v"
  by (induction v arbitrary: acc) auto

lemma length_cumsum [simp]: "length (cumsum v) = length v"
  by (simp add: cumsum_def)

lemma not_decreases_sorted: "\<not> decreases v \<Longrightarrow> sorted v"
proof (induction v rule: induct_list012)
  case (3 x y zs)
  from 3(3) have xy: "x \<le> y" and rest: "\<not> decreases (y # zs)"
    by (auto simp: decreases_def)
  from 3(2)[OF rest] have "sorted (y # zs)" .
  with xy show ?case by auto
qed (auto simp: decreases_def)

lemma plan_step_inv:
  assumes "plan_step p st = Inr st'"
  shows "length (fst st') = length (fst st)"
    and "length (snd st') = length (snd st)"
    and "b < length (fst st) \<Longrightarrow> length (fst st' ! b) = length (fst st ! b)"
    and "b < length (fst st) \<Longrightarrow> b = fst p \<or> sorted (fst st ! b) \<Longrightarrow> sorted (fst st' ! b)"
  using assms
  by (auto simp: plan_step_def Let_def nth_list_update not_decreases_sorted
      split: prod.splits if_splits)

lemma plan_loop_inv:
  assumes "plan_loop ps st = Inr st'"
  shows "length (fst st') = length (fst st) \<and> length (snd st') = length (snd st) \<and>
    (\<forall>b < length (fst st). length (fst st' ! b) = length (fst st ! b) \<and>
       ((b \<in> fst ` set ps \<or> sorted (fst st ! b)) \<longrightarrow> sorted (fst st' ! b)))"
  using assms
proof (induction ps arbitrary: st)
  case Nil
  then show ?case by simp
next
  case (Cons p ps)
  then obtain st1 where s1: "plan_step p st = Inr st1" and l1: "plan_loop ps st1 = Inr st'"
    by (auto split: sum.splits)
  note i1 = plan_step_inv[OF s1]
  note ih = Cons.IH[OF l1]
  show ?case
  proof (intro conjI allI impI)
    show "length (fst st') = length (fst st)" using ih i1(1) by simp
    show "length (snd st') = length (snd st)" using ih i1(2) by simp
  next
    fix b assume b: "b < length (fst st)"
    then have b1: "b < length (fst st1)" using i1(1) by simp
    show "length (fst st' ! b) = length (fst st ! b)"
      using ih b1 i1(3)[OF b] by simp
  next
    fix b assume b: "b < length (fst st)"
      and h: "b \<in> fst ` set (p # ps) \<or> sorted (fst st ! b)"
    then have b1: "b < length (fst st1)" using i1(1) by simp
    from h have "b \<in> fst ` set ps \<or> b = fst p \<or> sorted (fst st ! b)" by auto
    then have "b \<in> fst ` set ps \<or> sorted (fst st1 ! b)"
      using i1(4)[OF b] by blast
    then show "sorted (fst st' ! b)" using ih b1 by blast
  qed
qed

lemma length_set_column: "length vals = length offsets \<Longrightarrow> length (set_column offsets col vals) = length offsets"
  by (simp add: set_column_def)

lemma nth_set_column:
  "length vals = length offsets \<Longrightarrow> b < length offsets \<Longrightarrow>
   set_column offsets col vals ! b = (offsets ! b)[col := vals ! b]"
  by (simp add: set_column_def)

lemma first_pass_fold:
  assumes "length offsets = length bs" "\<forall>b < length bs. length (offsets ! b) = n"
  shows "length (fst (fold (first_pass_step bs) es (offsets, evals))) = length bs \<and>
    (\<forall>b < length bs. length (fst (fold (first_pass_step bs) es (offsets, evals)) ! b) = n)"
  using assms
proof (induction es arbitrary: offsets evals)
  case Nil
  then show ?case by simp
next
  case (Cons e es)
  have l: "length (sizefunc bs e) = length offsets" using Cons.prems by (simp add: sizefunc_def)
  show ?case
    unfolding fold_simps first_pass_step_def prod.case
    apply (rule Cons.IH[unfolded first_pass_step_def])
    using Cons.prems l by (simp_all add: length_set_column nth_set_column)
qed

lemma first_pass_dims:
  "length (fst (first_pass bs nelems)) = length bs"
  "b < length bs \<Longrightarrow> length (fst (first_pass bs nelems) ! b) = nelems + 1"
  using first_pass_fold[of "replicate (length bs) (replicate (nelems + 1) 0)" bs "nelems + 1" "[0..<nelems]" "[]"]
  by (auto simp: first_pass_def Let_def)

lemma sorted_ranges_disjoint:
  fixes v :: "u64 list"
  assumes "sorted v" "e1 < e2" "e2 + 1 < length v"
  shows "{unat (v ! e1) ..< unat (v ! (e1 + 1))} \<inter> {unat (v ! e2) ..< unat (v ! (e2 + 1))} = {}"
proof -
  have "v ! (e1 + 1) \<le> v ! e2"
    using assms by (intro sorted_nth_mono) auto
  then have "unat (v ! (e1 + 1)) \<le> unat (v ! e2)"
    by (simp add: word_le_nat_alt)
  then show ?thesis by auto
qed

lemma fst_set_enumerate: "fst ` set (enumerate n xs) = {n..<n + length xs}"
proof -
  have "fst ` set (enumerate n xs) = set (map fst (enumerate n xs))"
    by (simp only: set_map)
  also have "\<dots> = set [n..<n + length xs]"
    by (simp only: map_fst_enumerate)
  finally show ?thesis by simp
qed

text \<open>
  Claim C2. Whenever offset planning completes without raising, every block row of the
  offset table has \<open>nelems + 1\<close> entries and is non-decreasing along the element axis,
  and hence the half-open output ranges of two distinct elements of the same block are
  disjoint.
\<close>

theorem plan_rows_nondecreasing_disjoint:
  assumes "plan_offsets funcs nelems = Inr (offsets, nvals)"
    and "iblock < length (blocks funcs)"
  shows "length (offsets ! iblock) = nelems + 1 \<and>
         sorted (offsets ! iblock) \<and>
         (\<forall>e1 e2. e1 < e2 \<and> e2 < nelems \<longrightarrow>
            out_range offsets iblock e1 \<inter> out_range offsets iblock e2 = {})"
proof (intro conjI)
  let ?st = "(fst (first_pass (blocks funcs) nelems), replicate (length funcs) (0::u64))"
  from assms(1) have pl: "plan_loop (enumerate 0 (block2func funcs)) ?st = Inr (offsets, nvals)"
    by (simp add: plan_offsets_def)
  have in_ps: "iblock \<in> fst ` set (enumerate 0 (block2func funcs))"
    using assms(2) by (simp add: fst_set_enumerate block2func_def)
  have b: "iblock < length (fst ?st)" using assms(2) by (simp add: first_pass_dims)
  from plan_loop_inv[OF pl] b in_ps
  have len: "length (offsets ! iblock) = length (fst ?st ! iblock)" and srt: "sorted (offsets ! iblock)"
    by auto
  show l: "length (offsets ! iblock) = nelems + 1"
    using len assms(2) by (simp add: first_pass_dims)
  show "sorted (offsets ! iblock)" by (rule srt)
  show "\<forall>e1 e2. e1 < e2 \<and> e2 < nelems \<longrightarrow>
           out_range offsets iblock e1 \<inter> out_range offsets iblock e2 = {}"
  proof (intro allI impI)
    fix e1 e2 assume "e1 < e2 \<and> e2 < nelems"
    then have "e1 < e2" "e2 + 1 < length (offsets ! iblock)" using l by auto
    from sorted_ranges_disjoint[OF srt this]
    show "out_range offsets iblock e1 \<inter> out_range offsets iblock e2 = {}"
      by (simp only: out_range_def)
  qed
qed


theorem plan_rows_nondecreasing_disjoint_witness:
  "plan_offsets [[\<lambda>e. 2, \<lambda>e. 3]] 2 = Inr ([[0, 2, 4], [4, 7, 10]], [10]) \<and>
   1 < length (blocks [[\<lambda>e. 2, \<lambda>e. 3]]) \<and>
   sorted ([[0, 2, 4], [4, 7, 10 :: u64]] ! 1) \<and>
   out_range [[0, 2, 4], [4, 7, 10]] 1 0 \<inter> out_range [[0, 2, 4], [4, 7, 10]] 1 1 = {}"
proof -
  have h1: "plan_offsets [[\<lambda>e. 2, \<lambda>e. 3]] 2 = Inr ([[0, 2, 4], [4, 7, 10]], [10])"
    by code_simp
  have h2: "1 < length (blocks [[\<lambda>e. 2, \<lambda>e. 3]])"
    by code_simp
  from plan_rows_nondecreasing_disjoint[OF h1 h2] h1 h2 show ?thesis
    by simp
qed

subsection \<open>The first pass\<close>

lemma fold_first_pass_step:
  assumes "k \<le> nelems"
  shows "fold (first_pass_step bs) [0..<k] (replicate (length bs) (replicate (nelems + 1) 0), [])
    = (map (\<lambda>(i, f). 0 # map f [0..<k] @ replicate (nelems - k) 0) bs, [0..<k])"
  using assms
proof (induction k)
  case 0
  then show ?case by (simp add: map_replicate_const[symmetric] case_prod_unfold del: replicate.simps)
     (simp add:  map_replicate_const)
next
  case (Suc k)
  have upd: "(0 # map f [0..<k] @ replicate (nelems - k) 0)[Suc k := f k]
      = 0 # map f [0..<Suc k] @ replicate (nelems - Suc k) 0" for f :: sizeexpr
  proof -
    from Suc.prems obtain m where m: "nelems - k = Suc m" "nelems - Suc k = m"
      by (metis Suc_diff_Suc Suc_le_lessD)
    show ?thesis by (simp add: m list_update_append)
  qed
  have "fold (first_pass_step bs) [0..<Suc k] (replicate (length bs) (replicate (nelems + 1) 0), [])
     = first_pass_step bs k (map (\<lambda>(i, f). 0 # map f [0..<k] @ replicate (nelems - k) 0) bs, [0..<k])"
    using Suc by simp
  also have "\<dots> = (map (\<lambda>(i, f). 0 # map f [0..<Suc k] @ replicate (nelems - Suc k) 0) bs, [0..<Suc k])"
    unfolding first_pass_step_def set_column_def sizefunc_def prod.case
    by (simp add: zip_map_map zip_same_conv_map case_prod_unfold upd[simplified] del: upt_Suc replicate.simps)
      (simp)
  finally show ?case .
qed

lemma first_pass_eq:
  "first_pass bs nelems =
     (map (\<lambda>(i, f). 0 # map f [0..<nelems]) bs, if bs = [] then [] else [0..<nelems])"
  using fold_first_pass_step[of nelems nelems bs]
  by (auto simp: first_pass_def Let_def)

text \<open>
  Claim C3, as stated: the sizes are evaluated once per block, each evaluation covering
  all elements. The code evaluates the stacked size function once per element: with two
  blocks and three elements the evaluation log has three entries, one per element, so the
  number of evaluations is neither the number of blocks nor one.
\<close>

theorem first_pass_evaluations_counterexample:
  "snd (first_pass (blocks [[\<lambda>e. 2, \<lambda>e. 3]]) 3) = [0, 1, 2] \<and>
   length (blocks [[\<lambda>e. 2, \<lambda>e. 3]]) = 2 \<and>
   length (snd (first_pass (blocks [[\<lambda>e. 2, \<lambda>e. 3]]) 3)) \<noteq> length (blocks [[\<lambda>e. 2, \<lambda>e. 3]]) \<and>
   length (snd (first_pass (blocks [[\<lambda>e. 2, \<lambda>e. 3]]) 3)) \<noteq> 1"
  by code_simp

text \<open>
  Claim C3, amended. The first pass evaluates the stacked size function once per element
  (elements \<open>0, \<dots>, nelems - 1\<close> in order, when there is at least one block), each
  evaluation yielding the sizes of all blocks at that element; this fills columns
  \<open>1..nelems\<close> of the \<open>nblocks \<times> (nelems + 1)\<close> table, and column 0 stays zero.
\<close>

theorem first_pass_fills_columns:
  "snd (first_pass bs nelems) = (if bs = [] then [] else [0..<nelems]) \<and>
   length (sizefunc bs ielem) = length bs \<and>
   length (fst (first_pass bs nelems)) = length bs \<and>
   (\<forall>b < length bs.
      length (fst (first_pass bs nelems) ! b) = nelems + 1 \<and>
      fst (first_pass bs nelems) ! b ! 0 = 0 \<and>
      (\<forall>e < nelems. fst (first_pass bs nelems) ! b ! (e + 1) = sizefunc bs e ! b))"
  by (simp add: first_pass_eq sizefunc_def case_prod_unfold)

theorem first_pass_fills_columns_witness:
  "snd (first_pass (blocks [[\<lambda>e. 2, \<lambda>e. 3]]) 3) = [0, 1, 2] \<and>
   (1::nat) < length (blocks [[\<lambda>e. 2, \<lambda>e. 3]]) \<and> (2::nat) < 3 \<and>
   fst (first_pass (blocks [[\<lambda>e. 2, \<lambda>e. 3]]) 3) ! 1 = [0, 3, 3, 3] \<and>
   fst (first_pass (blocks [[\<lambda>e. 2, \<lambda>e. 3]]) 3) ! 1 ! (2 + 1) = sizefunc (blocks [[\<lambda>e. 2, \<lambda>e. 3]]) 2 ! 1"
proof -
  have l: "(1::nat) < length (blocks [[\<lambda>e. 2, \<lambda>e. 3]])" by code_simp
  have r: "fst (first_pass (blocks [[\<lambda>e. 2, \<lambda>e. 3]]) 3) ! 1 = [0, 3, 3, 3]" by code_simp
  have g: "snd (first_pass (blocks [[\<lambda>e. 2, \<lambda>e. 3]]) 3) = [0, 1, 2]" by code_simp
  have e: "(2::nat) < 3" by simp
  from first_pass_fills_columns[of "blocks [[\<lambda>e. 2, \<lambda>e. 3]]" 3 0]
  have "\<forall>b < length (blocks [[\<lambda>e. 2, \<lambda>e. 3]]). \<forall>e < 3.
      fst (first_pass (blocks [[\<lambda>e. 2, \<lambda>e. 3]]) 3) ! b ! (e + 1) = sizefunc (blocks [[\<lambda>e. 2, \<lambda>e. 3]]) e ! b"
    by blast
  from this[rule_format, OF l e] l r g e show ?thesis by blast
qed

subsection \<open>Wrap-around of the running sums\<close>

lemma decreases_Cons2: "decreases (a # b # v) \<longleftrightarrow> b < a \<or> decreases (b # v)"
  by (simp add: decreases_def)

lemma step_decreases_iff_wrap:
  fixes a x :: u64
  shows "a + x < a \<longleftrightarrow> 2 ^ 64 \<le> unat a + unat x"
  using no_plus_overflow_unat_size[of a x] by (simp add: word_size not_le[symmetric])

lemma run_decreases_iff:
  fixes a :: u64
  shows "decreases (a # cumsum_from a xs) \<longleftrightarrow> 2 ^ 64 \<le> unat a + sum_list (map unat xs)"
proof (induction xs arbitrary: a)
  case Nil
  have "unat a < 2 ^ 64" using unsigned_less[of a] by simp
  then show ?case by (simp add: decreases_def)
next
  case (Cons x xs)
  show ?case
  proof (cases "2 ^ 64 \<le> unat a + unat x")
    case True
    then have "a + x < a" by (simp add: step_decreases_iff_wrap)
    with True show ?thesis by (simp add: decreases_Cons2)
  next
    case False
    then have nl: "\<not> a + x < a" by (simp add: step_decreases_iff_wrap)
    from False have "unat (a + x) = unat a + unat x"
      using unat_add_lem[of a x] by simp
    with nl Cons.IH[of "a + x"] show ?thesis
      by (simp add: decreases_Cons2 add.assoc)
  qed
qed

lemma last_run:
  fixes a :: u64
  assumes "unat a + sum_list (map unat xs) < 2 ^ 64"
  shows "unat (last (a # cumsum_from a xs)) = unat a + sum_list (map unat xs)"
  using assms
proof (induction xs arbitrary: a)
  case Nil
  then show ?case by simp
next
  case (Cons x xs)
  then have "unat a + unat x < 2 ^ 64" by simp
  then have e: "unat (a + x) = unat a + unat x"
    using unat_add_lem[of a x] by simp
  with Cons.prems have "unat (a + x) + sum_list (map unat xs) < 2 ^ 64" by simp
  from Cons.IH[OF this] e show ?case by simp
qed

lemma cumsum_row: "cumsum (a # xs) = a # cumsum_from a xs"
  by (simp add: cumsum_def)

lemma sum_row: "sum_list (map (unat \<circ> f) [0..<nelems]) = row_count f nelems"
  by (simp add: row_count_def comp_def)

lemma plan_loop_counts:
  assumes "i + length bs \<le> length offsets"
    and "\<forall>k < length bs. offsets ! (i + k) = 0 # map (snd (bs ! k)) [0..<nelems]"
    and "\<forall>p \<in> set bs. fst p < length nvals"
  shows "if (\<exists>j < length nvals. 2 ^ 64 \<le> unat (nvals ! j) + tot bs nelems j)
         then plan_loop (enumerate i (map fst bs)) (offsets, nvals) = Inl IntegerOverflow
         else (\<exists>offsets' nvals'. plan_loop (enumerate i (map fst bs)) (offsets, nvals) = Inr (offsets', nvals')
                \<and> length nvals' = length nvals
                \<and> (\<forall>j < length nvals. unat (nvals' ! j) = unat (nvals ! j) + tot bs nelems j))"
  using assms
proof (induction bs arbitrary: i offsets nvals)
  case Nil
  have "unat (nvals ! j) < 2 ^ 64" for j using unsigned_less[of "nvals ! j"] by simp
  then show ?case by (auto simp: tot_def not_le)
next
  case (Cons b bs)
  obtain j0 f where b: "b = (j0, f)" by (cases b)
  have j0: "j0 < length nvals" using Cons.prems(3) b by simp
  have i: "i < length offsets" using Cons.prems(1) by simp
  have row: "offsets ! i = 0 # map f [0..<nelems]"
    using Cons.prems(2)[rule_format, of 0] b by simp
  let ?v = "nvals ! j0 # cumsum_from (nvals ! j0) (map f [0..<nelems])"
  have step: "plan_step (i, j0) (offsets, nvals) =
      (if 2 ^ 64 \<le> unat (nvals ! j0) + row_count f nelems then Inl IntegerOverflow
       else Inr (offsets[i := ?v], nvals[j0 := last ?v]))"
    using i j0 by (simp add: plan_step_def row cumsum_row run_decreases_iff sum_row Let_def del: last.simps)
  have totc: "tot (b # bs) nelems j = (if j0 = j then row_count f nelems else 0) + tot bs nelems j" for j
    by (simp add: tot_def b)
  show ?case
  proof (cases "2 ^ 64 \<le> unat (nvals ! j0) + row_count f nelems")
    case True
    then have "2 ^ 64 \<le> unat (nvals ! j0) + tot (b # bs) nelems j0"
      by (simp add: totc)
    with j0 have ex: "\<exists>j < length nvals. 2 ^ 64 \<le> unat (nvals ! j) + tot (b # bs) nelems j" by blast
    have "plan_loop (enumerate i (map fst (b # bs))) (offsets, nvals) = Inl IntegerOverflow"
      using True by (simp add: b step)
    with ex show ?thesis by (simp only: if_True)
  next
    case False
    let ?offs = "offsets[i := ?v]" and ?nv = "nvals[j0 := last ?v]"
    from False have lastv: "unat (last ?v) = unat (nvals ! j0) + row_count f nelems"
      using last_run[of "nvals ! j0" "map f [0..<nelems]"] by (simp add: sum_row not_le del: last.simps)
    have loop: "plan_loop (enumerate i (map fst (b # bs))) (offsets, nvals)
        = plan_loop (enumerate (Suc i) (map fst bs)) (?offs, ?nv)"
      using False by (simp add: b step del: last.simps)
    have p1: "Suc i + length bs \<le> length ?offs" using Cons.prems(1) by simp
    have p2: "\<forall>k < length bs. ?offs ! (Suc i + k) = 0 # map (snd (bs ! k)) [0..<nelems]"
      using Cons.prems(2) by (auto simp: nth_list_update dest: spec[of _ "Suc _"])
    have p3: "\<forall>p \<in> set bs. fst p < length ?nv" using Cons.prems(3) by simp
    have nv: "unat (?nv ! j) + tot bs nelems j = unat (nvals ! j) + tot (b # bs) nelems j"
      if "j < length nvals" for j
      using that lastv by (auto simp add: totc nth_list_update simp del: last.simps)
    note ih = Cons.IH[OF p1 p2 p3]
    have lnv: "length ?nv = length nvals" by simp
    show ?thesis
    proof (cases "\<exists>j < length nvals. 2 ^ 64 \<le> unat (nvals ! j) + tot (b # bs) nelems j")
      case True
      then have "\<exists>j < length ?nv. 2 ^ 64 \<le> unat (?nv ! j) + tot bs nelems j"
        using nv by (metis lnv)
      with ih have "plan_loop (enumerate (Suc i) (map fst bs)) (?offs, ?nv) = Inl IntegerOverflow"
        by (simp only: if_True)
      with True loop show ?thesis by (simp only: if_True)
    next
      case F2: False
      then have "\<not> (\<exists>j < length ?nv. 2 ^ 64 \<le> unat (?nv ! j) + tot bs nelems j)"
        using nv by (metis lnv)
      with ih obtain offsets' nvals' where
        r: "plan_loop (enumerate (Suc i) (map fst bs)) (?offs, ?nv) = Inr (offsets', nvals')"
          "length nvals' = length ?nv"
          "\<forall>j < length ?nv. unat (nvals' ! j) = unat (?nv ! j) + tot bs nelems j"
        by (simp only: if_False) blast
      have "\<forall>j < length nvals. unat (nvals' ! j) = unat (nvals ! j) + tot (b # bs) nelems j"
        using r(3) nv by (simp del: last.simps)
      with r(1,2) loop F2 show ?thesis by (simp only: if_False lnv) blast
    qed
  qed
qed

lemma tot_append: "tot (xs @ ys) nelems j = tot xs nelems j + tot ys nelems j"
  by (simp add: tot_def)

lemma tot_one_func:
  "tot (map (\<lambda>f. (i, f)) func) nelems j = (if i = j then func_count func nelems else 0)"
  by (induction func) (auto simp: tot_def func_count_def)

lemma tot_blocks_from:
  "tot (concat (map (\<lambda>(ifunc, func). map (\<lambda>f. (ifunc, f)) func) (enumerate n funcs))) nelems j
     = (if n \<le> j \<and> j < n + length funcs then func_count (funcs ! (j - n)) nelems else 0)"
proof (induction funcs arbitrary: n)
  case Nil
  then show ?case by (simp add: tot_def)
next
  case (Cons func funcs)
  show ?case
    by (auto simp: tot_append tot_one_func Cons.IH Suc_diff_le nth_Cons')
qed

lemma tot_blocks:
  "j < length funcs \<Longrightarrow> tot (blocks funcs) nelems j = func_count (funcs ! j) nelems"
  by (simp add: blocks_def tot_blocks_from)

lemma fst_blocks_from:
  "p \<in> set (concat (map (\<lambda>(ifunc, func). map (\<lambda>f. (ifunc, f)) func) (enumerate n funcs)))
     \<Longrightarrow> fst p < n + length funcs"
  by (induction funcs arbitrary: n) fastforce+

lemma fst_blocks: "p \<in> set (blocks funcs) \<Longrightarrow> fst p < length funcs"
  using fst_blocks_from[of p 0 funcs] by (simp add: blocks_def)

lemma counts_wrap_iff:
  "counts_wrap funcs nelems \<longleftrightarrow>
     (\<exists>j < length funcs. 2 ^ 64 \<le> unat ((replicate (length funcs) (0::u64)) ! j) + tot (blocks funcs) nelems j)"
proof -
  have "counts_wrap funcs nelems \<longleftrightarrow> (\<exists>j < length funcs. 2 ^ 64 \<le> func_count (funcs ! j) nelems)"
    unfolding counts_wrap_def list_ex_iff by (metis in_set_conv_nth)
  also have "\<dots> \<longleftrightarrow> (\<exists>j < length funcs.
      2 ^ 64 \<le> unat ((replicate (length funcs) (0::u64)) ! j) + tot (blocks funcs) nelems j)"
    by (simp add: tot_blocks cong: conj_cong)
  finally show ?thesis .
qed

lemma plan_offsets_cases:
  "if counts_wrap funcs nelems then plan_offsets funcs nelems = Inl IntegerOverflow
   else (\<exists>offsets nvals. plan_offsets funcs nelems = Inr (offsets, nvals)
          \<and> length nvals = length funcs
          \<and> (\<forall>j < length funcs. unat (nvals ! j) = func_count (funcs ! j) nelems))"
proof -
  let ?bs = "blocks funcs"
  let ?offs = "fst (first_pass ?bs nelems)"
  let ?nv = "replicate (length funcs) (0::u64)"
  have a1: "0 + length ?bs \<le> length ?offs" by (simp add: first_pass_eq)
  have a2: "\<forall>k < length ?bs. ?offs ! (0 + k) = 0 # map (snd (?bs ! k)) [0..<nelems]"
    by (simp add: first_pass_eq case_prod_unfold)
  have a3: "\<forall>p \<in> set ?bs. fst p < length ?nv" by (simp add: fst_blocks)
  note pl = plan_loop_counts[OF a1 a2 a3]
  show ?thesis
  proof (cases "counts_wrap funcs nelems")
    case True
    then have "\<exists>j < length ?nv. 2 ^ 64 \<le> unat (?nv ! j) + tot ?bs nelems j"
      by (simp add: counts_wrap_iff)
    with pl have "plan_loop (enumerate 0 (map fst ?bs)) (?offs, ?nv) = Inl IntegerOverflow"
      by (simp only: if_True)
    with True show ?thesis by (simp add: plan_offsets_def block2func_def)
  next
    case False
    then have "\<not> (\<exists>j < length ?nv. 2 ^ 64 \<le> unat (?nv ! j) + tot ?bs nelems j)"
      by (simp add: counts_wrap_iff)
    with pl obtain offsets' nvals' where
      r: "plan_loop (enumerate 0 (map fst ?bs)) (?offs, ?nv) = Inr (offsets', nvals')"
         "length nvals' = length ?nv"
         "\<forall>j < length ?nv. unat (nvals' ! j) = unat (?nv ! j) + tot ?bs nelems j"
      by (simp only: if_False) blast
    from r(3) have "\<forall>j < length funcs. unat (nvals' ! j) = func_count (funcs ! j) nelems"
      by (simp add: tot_blocks)
    with r(1,2) False show ?thesis
      by (simp add: plan_offsets_def block2func_def)
  qed
qed

text \<open>
  Claim C1. When the loop reaches a block whose running sum decreases at a step, it
  raises the overflow exception there, whatever blocks remain. A step of the running sum
  decreases exactly when the sum leaves the range of the \<^verbatim>\<open>uint64\<close> counter
  (\<open>step_decreases_iff_wrap\<close>, \<open>run_decreases_iff\<close>); so if the cumulative record count
  of some integrand wraps, planning raises and no shared buffer has been allocated, and
  if no cumulative count wraps, planning returns the offset table and the buffers are
  allocated.
\<close>

theorem overflow_raised_before_allocation:
  "(iblock < length offsets \<and> ifunc < length nvals \<and> offsets ! iblock \<noteq> [] \<and>
    decreases (cumsum ((offsets ! iblock)[0 := nvals ! ifunc])) \<longrightarrow>
      plan_loop ((iblock, ifunc) # ps) (offsets, nvals) = Inl IntegerOverflow) \<and>
   (counts_wrap funcs nelems \<longrightarrow>
      plan_and_allocate funcs nelems = (Inl IntegerOverflow, [])) \<and>
   (\<not> counts_wrap funcs nelems \<longrightarrow>
      (\<exists>offsets nvals. plan_and_allocate funcs nelems = (Inr (offsets, nvals), map unat nvals)))"
proof (intro conjI impI)
  assume "iblock < length offsets \<and> ifunc < length nvals \<and> offsets ! iblock \<noteq> [] \<and>
    decreases (cumsum ((offsets ! iblock)[0 := nvals ! ifunc]))"
  then show "plan_loop ((iblock, ifunc) # ps) (offsets, nvals) = Inl IntegerOverflow"
    by (simp add: plan_step_def)
next
  assume "counts_wrap funcs nelems"
  then show "plan_and_allocate funcs nelems = (Inl IntegerOverflow, [])"
    using plan_offsets_cases[of funcs nelems] by (simp add: plan_and_allocate_def)
next
  assume "\<not> counts_wrap funcs nelems"
  then show "\<exists>offsets nvals. plan_and_allocate funcs nelems = (Inr (offsets, nvals), map unat nvals)"
    using plan_offsets_cases[of funcs nelems] by (auto simp: plan_and_allocate_def)
qed

lemma row_count_example: "row_count (\<lambda>e. 9223372036854775808) 2 = 2 ^ 64" 
  by (simp add: row_count_def upt_rec[of _ "numeral _"] upt_rec[of 0])
lemma counts_wrap_example: "counts_wrap [[\<lambda>e. 2], [\<lambda>e. 3, \<lambda>e. 9223372036854775808]] 2" 
  by (simp add: counts_wrap_def func_count_def row_count_def upt_rec[of _ "numeral _"] upt_rec[of 0])
lemma counts_no_wrap_example: "\<not> counts_wrap [[\<lambda>e. 2], [\<lambda>e. 3, \<lambda>e. 4611686018427387904]] 2" 
  by (simp add: counts_wrap_def func_count_def row_count_def upt_rec[of _ "numeral _"] upt_rec[of 0])

lemma plan_offsets_example: "plan_offsets [[\<lambda>e. 2], [\<lambda>e. 3, \<lambda>e. 4611686018427387904]] 2
     = Inr ([[0, 2, 4], [0, 3, 6], [6, 4611686018427387910, 9223372036854775814]], [4, 9223372036854775814])"
  by code_simp

lemma plan_and_allocate_example: "plan_and_allocate [[\<lambda>e. 2], [\<lambda>e. 3, \<lambda>e. 4611686018427387904]] 2
     = (Inr ([[0, 2, 4], [0, 3, 6], [6, 4611686018427387910, 9223372036854775814]], [4, 9223372036854775814]),
         [4, 9223372036854775814])"
  by (simp add: plan_and_allocate_def plan_offsets_example)

theorem overflow_raised_before_allocation_witness:
  "(0::nat) < length [[0, 9223372036854775808, 9223372036854775808 :: u64]] \<and>
   (0::nat) < length [0 :: u64] \<and>
   [[0, 9223372036854775808, 9223372036854775808 :: u64]] ! 0 \<noteq> [] \<and>
   decreases (cumsum (([[0, 9223372036854775808, 9223372036854775808]] ! 0)[0 := [0] ! 0])) \<and>
   plan_loop [(0, 0), (1, 0)] ([[0, 9223372036854775808, 9223372036854775808]], [0])
     = Inl IntegerOverflow \<and>
   counts_wrap [[\<lambda>e. 2], [\<lambda>e. 3, \<lambda>e. 9223372036854775808]] 2 \<and>
   plan_and_allocate [[\<lambda>e. 2], [\<lambda>e. 3, \<lambda>e. 9223372036854775808]] 2 = (Inl IntegerOverflow, []) \<and>
   \<not> counts_wrap [[\<lambda>e. 2], [\<lambda>e. 3, \<lambda>e. 4611686018427387904]] 2 \<and>
   plan_and_allocate [[\<lambda>e. 2], [\<lambda>e. 3, \<lambda>e. 4611686018427387904]] 2
     = (Inr ([[0, 2, 4], [0, 3, 6], [6, 4611686018427387910, 9223372036854775814]], [4, 9223372036854775814]),
         [4, 9223372036854775814])"
proof -
  let ?offs = "[[0, 9223372036854775808, 9223372036854775808 :: u64]]"
  have d: "(0::nat) < length ?offs \<and> (0::nat) < length [0 :: u64] \<and> ?offs ! 0 \<noteq> [] \<and>
      decreases (cumsum ((?offs ! 0)[0 := [0] ! 0]))"
    by (simp add: decreases_def cumsum_def)
  from overflow_raised_before_allocation[of 0 ?offs 0 "[0]" "[(1, 0)]"
      "[[\<lambda>e. 2], [\<lambda>e. 3, \<lambda>e. 9223372036854775808]]" 2] d counts_wrap_example
  have a: "plan_loop [(0, 0), (1, 0)] (?offs, [0]) = Inl IntegerOverflow"
    and b: "plan_and_allocate [[\<lambda>e. 2], [\<lambda>e. 3, \<lambda>e. 9223372036854775808]] 2 = (Inl IntegerOverflow, [])"
    by blast+
  from d a b counts_wrap_example counts_no_wrap_example plan_and_allocate_example
  show ?thesis by blast
qed

section \<open>Properties of the merge algebra\<close>

lemma total_Nil [simp]: "total k [] = 0"
  by (simp add: total_def)

lemma total_Cons: "total k (r # rs) = (if fst r = k then snd r else 0) + total k rs"
  by (simp add: total_def)

lemma total_append: "total k (xs @ ys) = total k xs + total k ys"
  by (simp add: total_def)

lemma total_absent: "k \<notin> fst ` set rs \<Longrightarrow> total k rs = 0"
  by (induction rs) (auto simp: total_Cons)

subsection \<open>Insertion into a run\<close>

lemma keys_insert_rec: "fst ` set (insert_rec r rs) = insert (fst r) (fst ` set rs)"
  by (induction rs) auto

lemma sorted_insert_rec:
  "sorted_wrt (<) (map fst rs) \<Longrightarrow> sorted_wrt (<) (map fst (insert_rec r rs))"
proof (induction rs)
  case Nil
  then show ?case by simp
next
  case (Cons r' rs)
  then have ih: "sorted_wrt (<) (map fst (insert_rec r rs))" by simp
  from Cons.prems have fresh: "\<forall>k \<in> fst ` set rs. fst r' < k" by auto
  show ?case
  proof (cases "fst r < fst r'")
    case True
    with Cons.prems show ?thesis by auto
  next
    case False
    show ?thesis
    proof (cases "fst r = fst r'")
      case True
      with Cons.prems show ?thesis by auto
    next
      case ne: False
      with False have "fst r' < fst r" by simp
      with fresh have "\<forall>k \<in> fst ` set (insert_rec r rs). fst r' < k"
        by (simp add: keys_insert_rec)
      with ih False ne show ?thesis by auto
    qed
  qed
qed

lemma total_insert_rec:
  "total k (insert_rec r rs) = (if fst r = k then snd r else 0) + total k rs"
  by (induction rs) (auto simp: total_Cons)

lemma fold_insert_rec:
  "fst ` set (fold insert_rec rs acc) = fst ` set rs \<union> fst ` set acc"
  "sorted_wrt (<) (map fst acc) \<Longrightarrow> sorted_wrt (<) (map fst (fold insert_rec rs acc))"
  "total k (fold insert_rec rs acc) = total k rs + total k acc"
  by (induction rs arbitrary: acc) (auto simp: keys_insert_rec sorted_insert_rec total_insert_rec total_Cons)

lemma sort_chunk_props:
  "fst ` set (sort_chunk rs) = fst ` set rs"
  "sorted_wrt (<) (map fst (sort_chunk rs))"
  "total k (sort_chunk rs) = total k rs"
  by (simp_all add: sort_chunk_def fold_insert_rec)

subsection \<open>Merging runs\<close>

lemma keys_merge_runs: "fst ` set (merge_runs xs ys) = fst ` set xs \<union> fst ` set ys"
  by (induction xs ys rule: merge_runs.induct) auto

lemma total_merge_runs: "total k (merge_runs xs ys) = total k xs + total k ys"
  by (induction xs ys rule: merge_runs.induct) (auto simp: total_Cons)

lemma sorted_merge_runs:
  "sorted_wrt (<) (map fst xs) \<Longrightarrow> sorted_wrt (<) (map fst ys)
     \<Longrightarrow> sorted_wrt (<) (map fst (merge_runs xs ys))"
proof (induction xs ys rule: merge_runs.induct)
  case (3 x xs y ys)
  from "3.prems" have sx: "sorted_wrt (<) (map fst xs)" and sy: "sorted_wrt (<) (map fst ys)"
    and fx: "\<forall>k \<in> fst ` set xs. fst x < k" and fy: "\<forall>k \<in> fst ` set ys. fst y < k"
    by auto
  show ?case
  proof (cases "fst x < fst y")
    case True
    with "3.IH"(1) sx "3.prems"(2) have "sorted_wrt (<) (map fst (merge_runs xs (y # ys)))" by simp
    moreover have "\<forall>k \<in> fst ` set (merge_runs xs (y # ys)). fst x < k"
      using fx fy True by (auto simp: keys_merge_runs)
    ultimately show ?thesis using True by auto
  next
    case False
    show ?thesis
    proof (cases "fst y < fst x")
      case True
      with "3.IH"(2) False sy "3.prems"(1) have "sorted_wrt (<) (map fst (merge_runs (x # xs) ys))" by simp
      moreover have "\<forall>k \<in> fst ` set (merge_runs (x # xs) ys). fst y < k"
        using fx fy True by (auto simp: keys_merge_runs)
      ultimately show ?thesis using True False by auto
    next
      case f2: False
      with False have eq: "fst x = fst y" by simp
      with "3.IH"(3) False f2 sx sy have "sorted_wrt (<) (map fst (merge_runs xs ys))" by simp
      moreover have "\<forall>k \<in> fst ` set (merge_runs xs ys). fst x < k"
        using fx fy eq by (auto simp: keys_merge_runs)
      ultimately show ?thesis using False f2 by auto
    qed
  qed
qed simp_all

subsection \<open>Chunks\<close>

lemma concat_chunks: "concat (chunks n xs) = xs"
proof (induction n xs rule: chunks.induct)
  case (1 n xs)
  show ?case
  proof (cases "xs = []")
    case True
    then show ?thesis by (simp add: chunks.simps[of n "[]"])
  next
    case False
    with 1 have "concat (chunks n (drop (max 1 n) xs)) = drop (max 1 n) xs" by simp
    with False show ?thesis by (subst chunks.simps) simp
  qed
qed

lemma fold_merge_chunks:
  "fst ` set (fold (\<lambda>chunk run. merge_runs run (sort_chunk chunk)) cs acc)
     = fst ` set (concat cs) \<union> fst ` set acc"
  "sorted_wrt (<) (map fst acc) \<Longrightarrow>
     sorted_wrt (<) (map fst (fold (\<lambda>chunk run. merge_runs run (sort_chunk chunk)) cs acc))"
  "total k (fold (\<lambda>chunk run. merge_runs run (sort_chunk chunk)) cs acc)
     = total k (concat cs) + total k acc"
proof (induction cs arbitrary: acc)
  case Nil
  { case 1 show ?case by simp }
  { case 2 then show ?case by simp }
  { case 3 show ?case by simp }
next
  case (Cons c cs)
  { case 1 show ?case
      by (auto simp: Cons.IH(1) keys_merge_runs sort_chunk_props(1)) }
  { case 2 then show ?case
      by (simp add: Cons.IH(2) sorted_merge_runs sort_chunk_props(2)) }
  { case 3 show ?case
      by (simp add: Cons.IH(3) total_merge_runs sort_chunk_props(3) total_append) }
qed

lemma dedup_recs_props:
  "fst ` set (dedup_recs n rs) = fst ` set rs"
  "sorted_wrt (<) (map fst (dedup_recs n rs))"
  "total k (dedup_recs n rs) = total k rs"
  by (simp_all add: dedup_recs_def fold_merge_chunks concat_chunks)

text \<open>In a run with distinct keys every record carries the total of its key.\<close>

lemma distinct_keys_total:
  "distinct (map fst rs) \<Longrightarrow> (k, v) \<in> set rs \<Longrightarrow> total k rs = v"
proof (induction rs)
  case Nil
  then show ?case by simp
next
  case (Cons r rs)
  show ?case
  proof (cases "r = (k, v)")
    case True
    with Cons.prems(1) have "k \<notin> fst ` set rs" by auto
    with True show ?thesis by (simp add: total_Cons total_absent)
  next
    case False
    with Cons.prems have in_rs: "(k, v) \<in> set rs" by simp
    then have "k \<in> fst ` set rs" by force
    with Cons.prems(1) have "fst r \<noteq> k" by auto
    with Cons.IH in_rs Cons.prems(1) show ?thesis by (simp add: total_Cons)
  qed
qed

lemma dedup_recs_closed_form:
  "dedup_recs n rs = map (\<lambda>k. (k, total k rs)) (sort (remdups (map fst rs)))"
proof -
  let ?out = "dedup_recs n rs"
  have st: "sorted_wrt (<) (map fst ?out)" by (rule dedup_recs_props(2))
  then have sd: "sorted (map fst ?out)" "distinct (map fst ?out)"
    by (simp_all add: strict_sorted_iff)
  have "set (map fst ?out) = set (sort (remdups (map fst rs)))"
    using dedup_recs_props(1)[of n rs] by simp
  with sd have keys: "map fst ?out = sort (remdups (map fst rs))"
    by (intro sorted_distinct_set_unique) simp_all
  have "?out = map (\<lambda>r. (fst r, total (fst r) rs)) ?out"
  proof (rule map_idI[symmetric])
    fix r assume "r \<in> set ?out"
    then have "total (fst r) ?out = snd r"
      using distinct_keys_total[OF sd(2), of "fst r" "snd r"] by simp
    then show "(fst r, total (fst r) rs) = r"
      by (simp add: dedup_recs_props(3) prod_eq_iff)
  qed
  also have "\<dots> = map (\<lambda>k. (k, total k rs)) (map fst ?out)"
    by (simp add: comp_def)
  finally show ?thesis by (simp only: keys)
qed

text \<open>
  Claim C4. For every collection and every chunk budget, \<open>dedup\<close> keeps shape and value
  type and returns exactly one record per distinct input index tuple, in strictly
  ascending lexicographic order, carrying the sum of the values recorded under that
  tuple; a tuple whose values sum to zero is kept like any other. On the vector of the
  test the result is \<open>[(0,)60, (1,)40, (2,)80, (3,)0, (4,)30]\<close>.
\<close>

theorem dedup_groups_sums_sorted:
  "shape (dedup n data inplace) = shape data \<and>
   dtype (dedup n data inplace) = dtype data \<and>
   sorted_wrt (<) (map fst (recs (dedup n data inplace))) \<and>
   set (map fst (recs (dedup n data inplace))) = set (map fst (recs data)) \<and>
   recs (dedup n data inplace)
     = map (\<lambda>k. (k, total k (recs data))) (sort (remdups (map fst (recs data)))) \<and>
   recs (dedup n \<lparr>shape = [5], dtype = IntType,
       recs = [([4], 10), ([4], 20), ([3], 1), ([2], 30), ([1], 40), ([2], 50),
               ([3], -1), ([0], 0), ([0], 60)]\<rparr> inplace)
     = [([0], 60), ([1], 40), ([2], 80), ([3], 0), ([4], 30)]"
proof -
  let ?rs = "[([4], 10), ([4], 20), ([3], 1), ([2], 30), ([1], 40), ([2], 50),
               ([3], -1), ([0], 0), ([0], 60)] :: srecord list"
  have ex: "map (\<lambda>k. (k, total k ?rs)) (sort (remdups (map fst ?rs)))
      = [([0], 60), ([1], 40), ([2], 80), ([3], 0), ([4], 30)]"
    by code_simp
  have k: "set (map fst (dedup_recs n (recs data))) = set (map fst (recs data))"
    using dedup_recs_props(1)[of n "recs data"] by simp
  show ?thesis
    unfolding dedup_def
    using dedup_recs_props(2)[of n "recs data"] k
      dedup_recs_closed_form[of n "recs data"] dedup_recs_closed_form[of n ?rs] ex
    by simp
qed

lemma store_result_type:
  assumes "t \<in> set ts" "store t v = v"
  shows "store (result_type ts) v = v"
proof (cases "FloatType \<in> set ts")
  case True
  then show ?thesis by (simp add: result_type_def store_def)
next
  case False
  with assms(1) have "t \<noteq> FloatType" by metis
  then have "t = IntType" by (cases t) simp_all
  with assms(2) False show ?thesis by (simp add: result_type_def)
qed

lemma store_recs_well_formed:
  assumes "well_formed d" "dtype d \<in> set ts"
  shows "map (\<lambda>(idx, v). (idx, store (result_type ts) v)) (recs d) = recs d"
proof (rule map_idI)
  fix r assume "r \<in> set (recs d)"
  with assms(1) have "store (dtype d) (snd r) = snd r"
    by (auto simp: well_formed_def list_all_iff)
  from store_result_type[OF assms(2) this] show "(case r of (idx, v) \<Rightarrow> (idx, store (result_type ts) v)) = r"
    by (simp add: case_prod_unfold)
qed

lemma add_shapes_agree:
  assumes "list_all (\<lambda>d'. shape d' = shape d) ds"
  shows "add (d # ds) = Inr \<lparr>shape = shape d, dtype = result_type (map dtype (d # ds)),
      recs = concat (map (\<lambda>d'. map (\<lambda>(idx, v). (idx, store (result_type (map dtype (d # ds))) v)) (recs d')) (d # ds))\<rparr>"
  using assms by (simp add: add_def)

lemma add_well_formed_recs:
  assumes "list_all well_formed datas"
  shows "concat (map (\<lambda>d'. map (\<lambda>(idx, v). (idx, store (result_type (map dtype datas)) v)) (recs d')) datas)
     = concat (map recs datas)"
proof -
  have "map (\<lambda>d'. map (\<lambda>(idx, v). (idx, store (result_type (map dtype datas)) v)) (recs d')) datas
      = map recs datas"
  proof (rule map_cong[OF refl])
    fix d' assume d': "d' \<in> set datas"
    with assms have "well_formed d'" by (simp add: list_all_iff)
    moreover from d' have "dtype d' \<in> set (map dtype datas)" by simp
    ultimately show "map (\<lambda>(idx, v). (idx, store (result_type (map dtype datas)) v)) (recs d') = recs d'"
      by (rule store_recs_well_formed)
  qed
  then show ?thesis by (simp only:)
qed

text \<open>
  Claim C5. \<open>add\<close> raises when an input's shape differs from the first one's; otherwise
  the result has that shape, the value type is floating as soon as one input is floating
  and integer otherwise, and the records are those of the inputs in input order, not
  merged and not sorted, every value of a well-formed input unchanged. Adding the
  integer-valued test vector and a floating-valued collection yields a floating-valued
  collection that holds \<open>1/2\<close> exactly.
\<close>

theorem add_concatenates_and_widens:
  "(list_all (\<lambda>d'. shape d' = shape d) ds \<longrightarrow>
      (\<exists>r. add (d # ds) = Inr r \<and> shape r = shape d \<and>
           dtype r = (if FloatType \<in> set (map dtype (d # ds)) then FloatType else IntType) \<and>
           map fst (recs r) = map fst (concat (map recs (d # ds))) \<and>
           (list_all well_formed (d # ds) \<longrightarrow> recs r = concat (map recs (d # ds))))) \<and>
   (\<not> list_all (\<lambda>d'. shape d' = shape d) ds \<longrightarrow> add (d # ds) = Inl ConstructionError) \<and>
   add [\<lparr>shape = [5], dtype = IntType,
          recs = [([4], 10), ([4], 20), ([3], 1), ([2], 30), ([1], 40), ([2], 50),
                  ([3], -1), ([0], 0), ([0], 60)]\<rparr>,
        \<lparr>shape = [5], dtype = FloatType, recs = [([1], -40), ([2], 1 / 2)]\<rparr>]
     = Inr \<lparr>shape = [5], dtype = FloatType,
          recs = [([4], 10), ([4], 20), ([3], 1), ([2], 30), ([1], 40), ([2], 50),
                  ([3], -1), ([0], 0), ([0], 60), ([1], -40), ([2], 1 / 2)]\<rparr>"
proof (intro conjI impI)
  assume sh: "list_all (\<lambda>d'. shape d' = shape d) ds"
  let ?r = "\<lparr>shape = shape d, dtype = result_type (map dtype (d # ds)),
      recs = concat (map (\<lambda>d'. map (\<lambda>(idx, v). (idx, store (result_type (map dtype (d # ds))) v)) (recs d')) (d # ds))\<rparr>"
  have keys: "map fst (recs ?r) = map fst (concat (map recs (d # ds)))"
    by (simp add: map_concat comp_def case_prod_unfold)
  have wf: "list_all well_formed (d # ds) \<longrightarrow> recs ?r = concat (map recs (d # ds))"
    using add_well_formed_recs[of "d # ds"] by simp
  have ty: "dtype ?r = (if FloatType \<in> set (map dtype (d # ds)) then FloatType else IntType)"
    by (simp add: result_type_def)
  from add_shapes_agree[OF sh] keys wf ty
  show "\<exists>r. add (d # ds) = Inr r \<and> shape r = shape d \<and>
           dtype r = (if FloatType \<in> set (map dtype (d # ds)) then FloatType else IntType) \<and>
           map fst (recs r) = map fst (concat (map recs (d # ds))) \<and>
           (list_all well_formed (d # ds) \<longrightarrow> recs r = concat (map recs (d # ds)))"
    by (intro exI[of _ ?r]) simp
next
  assume "\<not> list_all (\<lambda>d'. shape d' = shape d) ds"
  then show "add (d # ds) = Inl ConstructionError" by (simp add: add_def)
next
  show "add [\<lparr>shape = [5], dtype = IntType,
          recs = [([4], 10), ([4], 20), ([3], 1), ([2], 30), ([1], 40), ([2], 50),
                  ([3], -1), ([0], 0), ([0], 60)]\<rparr>,
        \<lparr>shape = [5], dtype = FloatType, recs = [([1], -40), ([2], 1 / 2)]\<rparr>]
     = Inr \<lparr>shape = [5], dtype = FloatType,
          recs = [([4], 10), ([4], 20), ([3], 1), ([2], 30), ([1], 40), ([2], 50),
                  ([3], -1), ([0], 0), ([0], 60), ([1], -40), ([2], 1 / 2)]\<rparr>"
    by (simp add: add_def result_type_def store_def)
qed

theorem add_concatenates_and_widens_witness:
  "list_all (\<lambda>d'. shape d' = shape \<lparr>shape = [5], dtype = IntType, recs = [([4], 10), ([0], 0)]\<rparr>)
     [\<lparr>shape = [5], dtype = FloatType, recs = [([1], -40), ([2], 1 / 2)]\<rparr>] \<and>
   list_all well_formed [\<lparr>shape = [5], dtype = IntType, recs = [([4], 10), ([0], 0)]\<rparr>,
     \<lparr>shape = [5], dtype = FloatType, recs = [([1], -40), ([2], 1 / 2)]\<rparr>] \<and>
   (\<exists>r. add [\<lparr>shape = [5], dtype = IntType, recs = [([4], 10), ([0], 0)]\<rparr>,
             \<lparr>shape = [5], dtype = FloatType, recs = [([1], -40), ([2], 1 / 2)]\<rparr>] = Inr r \<and>
        dtype r = FloatType \<and>
        recs r = [([4], 10), ([0], 0), ([1], -40), ([2], 1 / 2)]) \<and>
   \<not> list_all (\<lambda>d'. shape d' = shape \<lparr>shape = [5], dtype = IntType, recs = []\<rparr>)
     [\<lparr>shape = [3], dtype = IntType, recs = []\<rparr>] \<and>
   add [\<lparr>shape = [5], dtype = IntType, recs = []\<rparr>, \<lparr>shape = [3], dtype = IntType, recs = []\<rparr>]
     = Inl ConstructionError"
proof -
  let ?a = "\<lparr>shape = [5], dtype = IntType, recs = [([4], 10), ([0], 0)]\<rparr>"
  let ?b = "\<lparr>shape = [5], dtype = FloatType, recs = [([1], -40), ([2], 1 / 2)]\<rparr>"
  have s: "list_all (\<lambda>d'. shape d' = shape ?a) [?b]" by simp
  have w: "list_all well_formed [?a, ?b]"
    by (simp add: well_formed_def ndim_def store_def)
  have n: "\<not> list_all (\<lambda>d'. shape d' = shape \<lparr>shape = [5], dtype = IntType, recs = []\<rparr>)
     [\<lparr>shape = [3], dtype = IntType, recs = []\<rparr>]" by simp
  from add_concatenates_and_widens[of ?a "[?b]"] s w
  obtain r where r: "add [?a, ?b] = Inr r" "dtype r = FloatType"
      "recs r = [([4], 10), ([0], 0), ([1], -40), ([2], 1 / 2)]"
    by auto
  from add_concatenates_and_widens[of "\<lparr>shape = [5], dtype = IntType, recs = []\<rparr>"
      "[\<lparr>shape = [3], dtype = IntType, recs = []\<rparr>]"] n
  have e: "add [\<lparr>shape = [5], dtype = IntType, recs = []\<rparr>, \<lparr>shape = [3], dtype = IntType, recs = []\<rparr>]
     = Inl ConstructionError" by blast
  from s w n r e show ?thesis by blast
qed

subsection \<open>Block composition\<close>

lemma block_rank1_three:
  assumes "shape A = [5]" "shape B = [3]" "shape C = [3]"
  shows "block (Seq [Leaf (Some A), Leaf (Some B), Leaf (Some C)])
    = Inr \<lparr>shape = [11], dtype = result_type [dtype A, dtype B, dtype C],
        recs = map (\<lambda>(idx, v). ([0 + idx ! 0], store (result_type [dtype A, dtype B, dtype C]) v)) (recs A)
             @ map (\<lambda>(idx, v). ([5 + idx ! 0], store (result_type [dtype A, dtype B, dtype C]) v)) (recs B)
             @ map (\<lambda>(idx, v). ([8 + idx ! 0], store (result_type [dtype A, dtype B, dtype C]) v)) (recs C)\<rparr>"
proof -
  let ?lvs = "[([0], Some A), ([1], Some B), ([2], Some C)]"
  have lv: "leaves (Seq [Leaf (Some A), Leaf (Some B), Leaf (Some C)]) = ?lvs" by simp
  have np: "[0..<npos ?lvs 0] = [0, 1, 2]"
    by (simp add: npos_def upt_rec[of _ "numeral _"] upt_rec[of 0])
  have ex: "axis_extents ?lvs 0 = [Some 5, Some 3, Some 3]"
    unfolding axis_extents_def np
    by (simp add: group_extent_def group_extents_def assms)
  show ?thesis
    unfolding block_def lv
    by (simp add: ex[simplified] ndim_def assms shift_index_def Let_def)
qed

lemma block_empty_group:
  assumes "k < depth s" "p < npos (leaves s) k" "group_extents (leaves s) k p = []"
  shows "block s = Inl ConstructionError"
proof -
  have "group_extent (leaves s) k p = None"
    by (simp add: group_extent_def assms(3))
  then have "None \<in> set (axis_extents (leaves s) k)"
    using assms(2) by (force simp: axis_extents_def)
  then have "\<not> list_all (\<lambda>e. e \<noteq> None) (axis_extents (leaves s) k)"
    by (auto simp: list_all_iff)
  then have "\<not> list_all (list_all (\<lambda>e. e \<noteq> None)) (map (axis_extents (leaves s)) [0..<depth s])"
    using assms(1) by (auto simp: list_all_iff)
  then show ?thesis by (simp add: block_def Let_def)
qed

text \<open>
  Claim C6. \<open>block\<close> over a rank-1 structure of three present leaves with declared axis
  sizes 5, 3 and 3 yields a collection of shape \<open>(11)\<close> whose records are those of the
  leaves in traversal order, each leaf's records in their own order, with indices
  shifted by 0, 5 and 8; and a structure in which some group along some axis has no
  present leaf raises an error.
\<close>

theorem block_rank1_offsets_and_empty_group:
  "(shape A = [5] \<and> shape B = [3] \<and> shape C = [3] \<longrightarrow>
      block (Seq [Leaf (Some A), Leaf (Some B), Leaf (Some C)])
        = Inr \<lparr>shape = [11], dtype = result_type [dtype A, dtype B, dtype C],
            recs = map (\<lambda>(idx, v). ([0 + idx ! 0], store (result_type [dtype A, dtype B, dtype C]) v)) (recs A)
                 @ map (\<lambda>(idx, v). ([5 + idx ! 0], store (result_type [dtype A, dtype B, dtype C]) v)) (recs B)
                 @ map (\<lambda>(idx, v). ([8 + idx ! 0], store (result_type [dtype A, dtype B, dtype C]) v)) (recs C)\<rparr>) \<and>
   (k < depth s \<and> p < npos (leaves s) k \<and> group_extents (leaves s) k p = [] \<longrightarrow>
      block s = Inl ConstructionError)"
  using block_rank1_three[of A B C] block_empty_group[of k s p] by blast

theorem block_rank1_offsets_and_empty_group_witness:
  "shape \<lparr>shape = [5], dtype = IntType, recs = [([4], 10), ([4], 20), ([3], 1), ([2], 30), ([1], 40),
       ([2], 50), ([3], -1), ([0], 0), ([0], 60)]\<rparr> = [5] \<and>
   shape \<lparr>shape = [3], dtype = FloatType, recs = [([1], 10)]\<rparr> = [3] \<and>
   block (Seq [Leaf (Some \<lparr>shape = [5], dtype = IntType, recs = [([4], 10), ([4], 20), ([3], 1),
                    ([2], 30), ([1], 40), ([2], 50), ([3], -1), ([0], 0), ([0], 60)]\<rparr>),
               Leaf (Some \<lparr>shape = [3], dtype = FloatType, recs = [([1], 10)]\<rparr>),
               Leaf (Some \<lparr>shape = [3], dtype = FloatType, recs = [([1], 10)]\<rparr>)])
     = Inr \<lparr>shape = [11], dtype = FloatType,
          recs = [([4], 10), ([4], 20), ([3], 1), ([2], 30), ([1], 40), ([2], 50), ([3], -1),
                  ([0], 0), ([0], 60), ([6], 10), ([9], 10)]\<rparr> \<and>
   (0::nat) < depth (Seq [Leaf (Some \<lparr>shape = [3], dtype = FloatType, recs = [([1], 10)]\<rparr>), Leaf None,
       Leaf (Some \<lparr>shape = [3], dtype = FloatType, recs = [([1], 10)]\<rparr>)]) \<and>
   (1::nat) < npos (leaves (Seq [Leaf (Some \<lparr>shape = [3], dtype = FloatType, recs = [([1], 10)]\<rparr>),
       Leaf None, Leaf (Some \<lparr>shape = [3], dtype = FloatType, recs = [([1], 10)]\<rparr>)])) 0 \<and>
   group_extents (leaves (Seq [Leaf (Some \<lparr>shape = [3], dtype = FloatType, recs = [([1], 10)]\<rparr>),
       Leaf None, Leaf (Some \<lparr>shape = [3], dtype = FloatType, recs = [([1], 10)]\<rparr>)])) 0 1 = [] \<and>
   block (Seq [Leaf (Some \<lparr>shape = [3], dtype = FloatType, recs = [([1], 10)]\<rparr>), Leaf None,
       Leaf (Some \<lparr>shape = [3], dtype = FloatType, recs = [([1], 10)]\<rparr>)]) = Inl ConstructionError"
proof -
  let ?A = "\<lparr>shape = [5], dtype = IntType, recs = [([4], 10), ([4], 20), ([3], 1), ([2], 30), ([1], 40),
       ([2], 50), ([3], -1), ([0], 0), ([0], 60)]\<rparr>"
  let ?B = "\<lparr>shape = [3], dtype = FloatType, recs = [([1], 10)]\<rparr>"
  let ?s = "Seq [Leaf (Some ?B), Leaf None, Leaf (Some ?B)]"
  have a: "shape ?A = [5]" and b: "shape ?B = [3]" by simp_all
  have d: "(0::nat) < depth ?s" by simp
  have n: "(1::nat) < npos (leaves ?s) 0" by (simp add: npos_def)
  have g: "group_extents (leaves ?s) 0 1 = []" by (simp add: group_extents_def)
  from block_rank1_offsets_and_empty_group[of ?A ?B ?B 0 ?s 1] a b
  have "block (Seq [Leaf (Some ?A), Leaf (Some ?B), Leaf (Some ?B)])
     = Inr \<lparr>shape = [11], dtype = FloatType,
          recs = [([4], 10), ([4], 20), ([3], 1), ([2], 30), ([1], 40), ([2], 50), ([3], -1),
                  ([0], 0), ([0], 60), ([6], 10), ([9], 10)]\<rparr>"
    by (simp add: result_type_def store_def)
  moreover from block_rank1_offsets_and_empty_group[of ?A ?B ?B 0 ?s 1] d n g
  have "block ?s = Inl ConstructionError" by blast
  ultimately show ?thesis using a b d n g by blast
qed

section \<open>Properties of the final materialisation\<close>

lemma lookup_dedup_recs:
  "(case map_of (dedup_recs n rs) c of None \<Rightarrow> 0 | Some v \<Rightarrow> v) = total c rs"
proof -
  have "map_of (dedup_recs n rs) c
      = (if c \<in> fst ` set rs then Some (total c rs) else None)"
    by (simp add: dedup_recs_closed_form map_of_map_restrict restrict_map_def)
  then show ?thesis by (simp add: total_absent)
qed

lemma toarray_entries:
  "toarray n data = \<lparr>dshape = shape data,
     entries = map (\<lambda>c. total c (recs data)) (coords (shape data))\<rparr>"
  by (simp add: toarray_def dedup_def lookup_dedup_recs)

lemma coords_rank1: "coords [n] = map (\<lambda>i. [i]) [0..<n]"
  by (simp add: comp_def map_concat concat_map_singleton)

text \<open>
  Claim C9. \<^verbatim>\<open>_convert\<close> selects the representation by rank: rank 0 gives the dense
  array of shape \<open>()\<close> holding the sum of all values (a scalar), rank 1 the dense vector
  whose entry \<open>i\<close> is the sum of the values recorded at \<open>i\<close>, rank 2 the matrix
  object that the backend builds from the data, and rank 3 or more the sparse data
  deduplicated and then pruned.
\<close>

theorem convert_by_rank:
  "(ndim data = 0 \<longrightarrow>
      convert fromsparse n data inplace = Array (toarray n data) \<and>
      toarray n data = \<lparr>dshape = [], entries = [total [] (recs data)]\<rparr>) \<and>
   (ndim data = 1 \<longrightarrow>
      convert fromsparse n data inplace = Array (toarray n data) \<and>
      toarray n data = \<lparr>dshape = shape data,
         entries = map (\<lambda>i. total [i] (recs data)) [0..<hd (shape data)]\<rparr>) \<and>
   (ndim data = 2 \<longrightarrow> convert fromsparse n data inplace = Matrix (fromsparse data inplace)) \<and>
   (3 \<le> ndim data \<longrightarrow>
      convert fromsparse n data inplace = Sparse (prune (dedup n data inplace) True) \<and>
      recs (prune (dedup n data inplace) True)
        = filter (\<lambda>r. snd r \<noteq> 0)
            (map (\<lambda>k. (k, total k (recs data))) (sort (remdups (map fst (recs data))))))"
proof (intro conjI impI)
  assume r: "ndim data = 0"
  then show "convert fromsparse n data inplace = Array (toarray n data)"
    by (simp add: convert_def)
  from r have "shape data = []" by (simp add: ndim_def)
  then show "toarray n data = \<lparr>dshape = [], entries = [total [] (recs data)]\<rparr>"
    by (simp add: toarray_entries)
next
  assume r: "ndim data = 1"
  then show "convert fromsparse n data inplace = Array (toarray n data)"
    by (simp add: convert_def)
  from r obtain m where "shape data = [m]"
    by (cases "shape data") (auto simp: ndim_def)
  then show "toarray n data = \<lparr>dshape = shape data,
         entries = map (\<lambda>i. total [i] (recs data)) [0..<hd (shape data)]\<rparr>"
    by (simp add: toarray_entries coords_rank1 comp_def)
next
  assume "ndim data = 2"
  then show "convert fromsparse n data inplace = Matrix (fromsparse data inplace)"
    by (simp add: convert_def)
next
  assume "3 \<le> ndim data"
  then show "convert fromsparse n data inplace = Sparse (prune (dedup n data inplace) True)"
    by (simp add: convert_def Let_def)
  show "recs (prune (dedup n data inplace) True)
        = filter (\<lambda>r. snd r \<noteq> 0)
            (map (\<lambda>k. (k, total k (recs data))) (sort (remdups (map fst (recs data)))))"
    by (simp add: prune_def dedup_def dedup_recs_closed_form)
qed

theorem convert_by_rank_witness:
  "ndim \<lparr>shape = [], dtype = IntType, recs = [([], 3), ([], 4)]\<rparr> = 0 \<and>
   convert (\<lambda>d b. recs d) 3 \<lparr>shape = [], dtype = IntType, recs = [([], 3), ([], 4)]\<rparr> True
     = Array \<lparr>dshape = [], entries = [7]\<rparr> \<and>
   ndim \<lparr>shape = [3], dtype = IntType, recs = [([2], 3), ([0], 4), ([2], -3)]\<rparr> = 1 \<and>
   convert (\<lambda>d b. recs d) 3 \<lparr>shape = [3], dtype = IntType, recs = [([2], 3), ([0], 4), ([2], -3)]\<rparr> True
     = Array \<lparr>dshape = [3], entries = [4, 0, 0]\<rparr> \<and>
   ndim \<lparr>shape = [2, 2], dtype = IntType, recs = [([1, 0], 3)]\<rparr> = 2 \<and>
   convert (\<lambda>d b. recs d) 3 \<lparr>shape = [2, 2], dtype = IntType, recs = [([1, 0], 3)]\<rparr> True
     = Matrix [([1, 0], 3)] \<and>
   3 \<le> ndim \<lparr>shape = [2, 2, 2], dtype = IntType, recs = [([1, 0, 1], 3), ([0, 0, 1], 5), ([1, 0, 1], -3), ([0, 0, 1], 1)]\<rparr> \<and>
   convert (\<lambda>d b. recs d) 3 \<lparr>shape = [2, 2, 2], dtype = IntType,
       recs = [([1, 0, 1], 3), ([0, 0, 1], 5), ([1, 0, 1], -3), ([0, 0, 1], 1)]\<rparr> True
     = Sparse \<lparr>shape = [2, 2, 2], dtype = IntType, recs = [([0, 0, 1], 6)]\<rparr>"
proof -
  let ?d0 = "\<lparr>shape = [], dtype = IntType, recs = [([], 3), ([], 4)]\<rparr>"
  let ?d1 = "\<lparr>shape = [3], dtype = IntType, recs = [([2], 3), ([0], 4), ([2], -3)]\<rparr>"
  let ?d2 = "\<lparr>shape = [2, 2], dtype = IntType, recs = [([1, 0], 3)]\<rparr>"
  let ?d3 = "\<lparr>shape = [2, 2, 2], dtype = IntType,
       recs = [([1, 0, 1], 3), ([0, 0, 1], 5), ([1, 0, 1], -3), ([0, 0, 1], 1)]\<rparr>"
  let ?f = "\<lambda>(d::sparse) (b::bool). recs d"
  have r0: "ndim ?d0 = 0" and r1: "ndim ?d1 = 1" and r2: "ndim ?d2 = 2" and r3: "3 \<le> ndim ?d3"
    by (simp_all add: ndim_def)
  from convert_by_rank[of ?d0 ?f 3 True] r0
  have c0: "convert ?f 3 ?d0 True = Array \<lparr>dshape = [], entries = [7]\<rparr>"
    by (simp add: total_def)
  from convert_by_rank[of ?d1 ?f 3 True] r1
  have c1: "convert ?f 3 ?d1 True = Array \<lparr>dshape = [3], entries = [4, 0, 0]\<rparr>"
    by (simp add: total_def upt_rec[of _ "numeral _"] upt_rec[of 0])
  from convert_by_rank[of ?d2 ?f 3 True] r2
  have c2: "convert ?f 3 ?d2 True = Matrix [([1, 0], 3)]" by simp
  have e3: "prune (dedup 3 ?d3 True) True = \<lparr>shape = [2, 2, 2], dtype = IntType, recs = [([0, 0, 1], 6)]\<rparr>"
    by code_simp
  from convert_by_rank[of ?d3 ?f 3 True] r3 e3
  have c3: "convert ?f 3 ?d3 True = Sparse \<lparr>shape = [2, 2, 2], dtype = IntType, recs = [([0, 0, 1], 6)]\<rparr>"
    by simp
  from r0 c0 r1 c1 r2 c2 r3 c3 show ?thesis by blast
qed

section \<open>Properties of postponed integrals\<close>

lemma map_of_merge_integrands:
  assumes "distinct (map fst ys)"
  shows "map_of (merge_integrands ops xs ys) s = merged_term ops (map_of xs s) (map_of ys s)"
  using assms
proof (induction ys arbitrary: xs)
  case Nil
  then show ?case
    by (simp add: merge_integrands_def merged_term_def split: option.splits)
next
  case (Cons y ys)
  obtain di g where y: "y = (di, g)" by (cases y)
  let ?xs' = "case map_of xs di of Some f \<Rightarrow> AList.update di (fadd ops f g) xs
                | None \<Rightarrow> AList.update di g xs"
  have step: "merge_integrands ops xs (y # ys) = merge_integrands ops ?xs' ys"
    by (simp add: merge_integrands_def y)
  from Cons.prems have d: "distinct (map fst ys)" and fresh: "map_of ys di = None"
    by (auto simp: y map_of_eq_None_iff)
  have xs': "map_of ?xs' s = (if s = di then merged_term ops (map_of xs di) (Some g) else map_of xs s)"
    by (simp add: update_conv' merged_term_def split: option.splits)
  show ?case
    unfolding step Cons.IH[OF d] xs'
    using fresh by (auto simp: y merged_term_def split: option.splits)
qed

lemma update_fresh: "k \<notin> fst ` set al \<Longrightarrow> AList.update k v al = al @ [(k, v)]"
  by (induction al) auto

lemma fold_update_distinct:
  "distinct (map fst items) \<Longrightarrow> fst ` set items \<inter> fst ` set acc = {}
     \<Longrightarrow> fold (\<lambda>(k, v). AList.update k v) items acc = acc @ items"
proof (induction items arbitrary: acc)
  case Nil
  then show ?case by simp
next
  case (Cons it items)
  obtain k v where it: "it = (k, v)" by (cases it)
  from Cons.prems have fresh: "k \<notin> fst ` set acc" by (auto simp: it)
  from Cons.prems have d: "distinct (map fst items)"
    and dj: "fst ` set items \<inter> fst ` set (acc @ [(k, v)]) = {}"
    by (auto simp: it)
  show ?case
    using Cons.IH[OF d dj] by (simp add: it update_fresh[OF fresh])
qed

lemma to_dict_distinct: "distinct (map fst items) \<Longrightarrow> to_dict items = items"
  using fold_update_distinct[of items "[]"] by (simp add: to_dict_def)

lemma distinct_merge_integrands:
  "distinct (map fst xs) \<Longrightarrow> distinct (map fst (merge_integrands ops xs ys))"
proof (induction ys arbitrary: xs)
  case Nil
  then show ?case by (simp add: merge_integrands_def)
next
  case (Cons y ys)
  obtain di g where y: "y = (di, g)" by (cases y)
  let ?xs' = "case map_of xs di of Some f \<Rightarrow> AList.update di (fadd ops f g) xs
                | None \<Rightarrow> AList.update di g xs"
  have step: "merge_integrands ops xs (y # ys) = merge_integrands ops ?xs' ys"
    by (simp add: merge_integrands_def y)
  have "distinct (map fst ?xs')"
    using Cons.prems by (simp add: distinct_update split: option.splits)
  from Cons.IH[OF this] show ?case by (simp only: step)
qed

lemma distinct_to_dict: "distinct (map fst (to_dict items))"
proof -
  have "distinct (map fst acc) \<Longrightarrow> distinct (map fst (fold (\<lambda>(k, v). AList.update k v) items acc))"
    for acc :: "('a \<times> 'b) list"
    by (induction items arbitrary: acc) (auto simp: distinct_update)
  from this[of "[]"] show ?thesis by (simp add: to_dict_def)
qed

lemma map_of_Integral_init:
  assumes "Integral_init ops items shp = Inr c"
  shows "map_of (integrands c) s = kept ops (map_of (to_dict items) s)" and "Ishape c = shp"
proof -
  let ?igs = "map (\<lambda>(topo, func). (topo, simplified ops func)) (to_dict items)"
  from assms have c: "c = \<lparr>integrands = filter (\<lambda>(topo, func). \<not> iszero ops func) ?igs, Ishape = shp\<rparr>"
    by (auto simp: Integral_init_def Let_def split: if_splits)
  then show "Ishape c = shp" by simp
  have d: "distinct (map fst ?igs)"
    using distinct_to_dict[of items] by (simp add: comp_def case_prod_unfold)
  have m: "map_of ?igs s = map_option (simplified ops) (map_of (to_dict items) s)"
    by (simp add: map_of_map)
  have f: "map_of (filter (\<lambda>(topo, func). P func) al) s
      = (case map_of al s of None \<Rightarrow> None | Some v \<Rightarrow> if P v then Some v else None)"
    if "distinct (map fst al)" for al :: "('a \<times> 'b) list" and P
    using that
  proof (induction al)
    case Nil then show ?case by simp
  next
    case (Cons a al)
    then show ?case
      by (cases a) (auto simp: map_of_eq_None_iff image_iff split: option.splits)
  qed
  show "map_of (integrands c) s = kept ops (map_of (to_dict items) s)"
    unfolding c by (simp add: f[OF d] m kept_def split: option.splits)
qed

text \<open>
  Claim C7. For Integrals \<open>a\<close> and \<open>b\<close> of equal shape, \<open>a - b\<close> is \<open>a + (-b)\<close>, and
  addition hands to the constructor the merge of the two term maps: the sum of the two
  terms for a sample that occurs in both operands, the one term for a sample that occurs
  in only one. The resulting Integral holds these terms as the constructor keeps them
  (simplified, and dropped when identically zero).
\<close>

theorem Integral_sub_add_merge:
  assumes "Ishape a = Ishape b"
    and "distinct (map fst (integrands a))" and "distinct (map fst (integrands b))"
  shows "Integral_sub ops a b
           = (case Integral_neg ops b of Inl e \<Rightarrow> Inl e | Inr nb \<Rightarrow> Integral_add ops a nb) \<and>
         Integral_add ops a b
           = Integral_init ops (merge_integrands ops (integrands a) (integrands b)) (Ishape a) \<and>
         (\<forall>s f g.
            (map_of (integrands a) s = Some f \<and> map_of (integrands b) s = Some g \<longrightarrow>
               map_of (merge_integrands ops (integrands a) (integrands b)) s = Some (fadd ops f g)) \<and>
            (map_of (integrands a) s = Some f \<and> map_of (integrands b) s = None \<longrightarrow>
               map_of (merge_integrands ops (integrands a) (integrands b)) s = Some f) \<and>
            (map_of (integrands a) s = None \<and> map_of (integrands b) s = Some g \<longrightarrow>
               map_of (merge_integrands ops (integrands a) (integrands b)) s = Some g) \<and>
            (map_of (integrands a) s = None \<and> map_of (integrands b) s = None \<longrightarrow>
               map_of (merge_integrands ops (integrands a) (integrands b)) s = None)) \<and>
         (\<forall>c s. Integral_add ops a b = Inr c \<longrightarrow>
            Ishape c = Ishape a \<and>
            map_of (integrands c) s
              = kept ops (map_of (merge_integrands ops (integrands a) (integrands b)) s))"
proof (intro conjI allI impI)
  show "Integral_sub ops a b
      = (case Integral_neg ops b of Inl e \<Rightarrow> Inl e | Inr nb \<Rightarrow> Integral_add ops a nb)"
    by (simp add: Integral_sub_def)
  show "Integral_add ops a b
      = Integral_init ops (merge_integrands ops (integrands a) (integrands b)) (Ishape a)"
    using assms(1) by (simp add: Integral_add_def)
next
  fix s f g
  note m = map_of_merge_integrands[OF assms(3), of ops "integrands a" s]
  { assume "map_of (integrands a) s = Some f \<and> map_of (integrands b) s = Some g"
    then show "map_of (merge_integrands ops (integrands a) (integrands b)) s = Some (fadd ops f g)"
      by (simp add: m merged_term_def) }
  { assume "map_of (integrands a) s = Some f \<and> map_of (integrands b) s = None"
    then show "map_of (merge_integrands ops (integrands a) (integrands b)) s = Some f"
      by (simp add: m merged_term_def) }
  { assume "map_of (integrands a) s = None \<and> map_of (integrands b) s = Some g"
    then show "map_of (merge_integrands ops (integrands a) (integrands b)) s = Some g"
      by (simp add: m merged_term_def) }
  { assume "map_of (integrands a) s = None \<and> map_of (integrands b) s = None"
    then show "map_of (merge_integrands ops (integrands a) (integrands b)) s = None"
      by (simp add: m merged_term_def) }
next
  fix c s assume "Integral_add ops a b = Inr c"
  then have i: "Integral_init ops (merge_integrands ops (integrands a) (integrands b)) (Ishape a) = Inr c"
    using assms(1) by (simp add: Integral_add_def)
  have d: "to_dict (merge_integrands ops (integrands a) (integrands b))
      = merge_integrands ops (integrands a) (integrands b)"
    by (intro to_dict_distinct distinct_merge_integrands assms(2))
  from map_of_Integral_init[OF i] d
  show "Ishape c = Ishape a"
    and "map_of (integrands c) s
      = kept ops (map_of (merge_integrands ops (integrands a) (integrands b)) s)"
    by simp_all
qed

theorem Integral_sub_add_merge_witness:
  "Ishape \<lparr>integrands = [(0::nat, 2::int), (1, 5)], Ishape = []\<rparr>
     = Ishape \<lparr>integrands = [(1::nat, 3::int), (2, 7)], Ishape = []\<rparr> \<and>
   distinct (map fst (integrands \<lparr>integrands = [(0::nat, 2::int), (1, 5)], Ishape = []\<rparr>)) \<and>
   distinct (map fst (integrands \<lparr>integrands = [(1::nat, 3::int), (2, 7)], Ishape = []\<rparr>)) \<and>
   map_of (integrands \<lparr>integrands = [(0::nat, 2::int), (1, 5)], Ishape = []\<rparr>) 1 = Some 5 \<and>
   map_of (integrands \<lparr>integrands = [(1::nat, 3::int), (2, 7)], Ishape = []\<rparr>) 1 = Some 3 \<and>
   map_of (merge_integrands const_ops [(0::nat, 2::int), (1, 5)] [(1, 3), (2, 7)]) 1 = Some 8 \<and>
   Integral_add const_ops \<lparr>integrands = [(0::nat, 2::int), (1, 5)], Ishape = []\<rparr>
       \<lparr>integrands = [(1, 3), (2, 7)], Ishape = []\<rparr>
     = Inr \<lparr>integrands = [(0, 2), (1, 8), (2, 7)], Ishape = []\<rparr> \<and>
   Integral_sub const_ops \<lparr>integrands = [(0::nat, 2::int), (1, 5)], Ishape = []\<rparr>
       \<lparr>integrands = [(1, 3), (2, 7)], Ishape = []\<rparr>
     = Inr \<lparr>integrands = [(0, 2), (1, 2), (2, -7)], Ishape = []\<rparr>"
proof -
  let ?a = "\<lparr>integrands = [(0::nat, 2::int), (1, 5)], Ishape = []\<rparr>"
  let ?b = "\<lparr>integrands = [(1::nat, 3::int), (2, 7)], Ishape = []\<rparr>"
  have h1: "Ishape ?a = Ishape ?b" by simp
  have h2: "distinct (map fst (integrands ?a))" by simp
  have h3: "distinct (map fst (integrands ?b))" by simp
  have la: "map_of (integrands ?a) 1 = Some 5" and lb: "map_of (integrands ?b) 1 = Some 3" by simp_all
  note t = Integral_sub_add_merge[OF h1 h2 h3, of const_ops]
  from t la lb have m: "map_of (merge_integrands const_ops [(0::nat, 2::int), (1, 5)] [(1, 3), (2, 7)]) 1 = Some 8"
    by (simp add: const_ops_def)
  have ad: "Integral_add const_ops ?a ?b = Inr \<lparr>integrands = [(0, 2), (1, 8), (2, 7)], Ishape = []\<rparr>"
    by (simp add: Integral_add_def Integral_init_def merge_integrands_def to_dict_def const_ops_def)
  have ng: "Integral_neg const_ops ?b = Inr \<lparr>integrands = [(1, -3), (2, -7)], Ishape = []\<rparr>"
    by (simp add: Integral_neg_def Integral_init_def to_dict_def const_ops_def)
  have ad2: "Integral_add const_ops ?a \<lparr>integrands = [(1, -3), (2, -7)], Ishape = []\<rparr>
      = Inr \<lparr>integrands = [(0, 2), (1, 2), (2, -7)], Ishape = []\<rparr>"
    by (simp add: Integral_add_def Integral_init_def merge_integrands_def to_dict_def const_ops_def)
  from t ng ad2 have sb: "Integral_sub const_ops ?a ?b = Inr \<lparr>integrands = [(0, 2), (1, 2), (2, -7)], Ishape = []\<rparr>"
    by simp
  from h1 h2 h3 la lb m ad sb show ?thesis by blast
qed

subsection \<open>Argument shapes\<close>

lemma arg_shapes_empty_iff: "arg_shapes ops a name = [] \<longleftrightarrow> \<not> occurs ops a name"
proof -
  have "concat (map (\<lambda>func. case func of
         Argument nm shp nderiv \<Rightarrow>
           if nm = name then [py_prefix (int (length shp) - int nderiv) shp] else []
       | Other \<Rightarrow> []) ds) = []
     \<longleftrightarrow> \<not> list_ex (\<lambda>func. case func of Argument nm shp nderiv \<Rightarrow> nm = name | Other \<Rightarrow> False) ds"
    for ds
    by (induction ds) (auto split: node.splits)
  then show ?thesis by (simp add: arg_shapes_def occurs_def)
qed

text \<open>
  Claim C8, amended. For a name that occurs in no term, \<^verbatim>\<open>_argshape\<close> raises
  \<^verbatim>\<open>KeyError\<close> and \<open>contains\<close> returns \<open>False\<close>, and \<open>contains\<close> returns \<open>False\<close>
  in exactly that case. For a name that occurs with one shape, \<open>contains\<close> returns
  \<open>True\<close>. For a name that occurs with different shapes the assertion of
  \<^verbatim>\<open>_argshape\<close> fails, and \<open>contains\<close>, which catches \<^verbatim>\<open>KeyError\<close> only, raises
  the assertion error as well.
\<close>

theorem contains_iff_occurs:
  "(\<not> occurs ops a name \<longrightarrow>
      argshape ops a name = Inl (KeyError name) \<and> contains ops a name = Inr False) \<and>
   (contains ops a name = Inr False \<longleftrightarrow> \<not> occurs ops a name) \<and>
   (occurs ops a name \<and> length (arg_shapes ops a name) = 1 \<longrightarrow>
      argshape ops a name = Inr (hd (arg_shapes ops a name)) \<and> contains ops a name = Inr True) \<and>
   (occurs ops a name \<and> length (arg_shapes ops a name) \<noteq> 1 \<longrightarrow>
      argshape ops a name = Inl AssertionError \<and> contains ops a name = Inl AssertionError)"
  using arg_shapes_empty_iff[of ops a name]
  by (auto simp: argshape_def contains_def Let_def)

text \<open>
  Claim C8, as stated: \<open>contains\<close> returns \<open>True\<close>, without raising, whenever the name
  occurs in some term. An integrand that depends on two arguments named \<open>x\<close> of shapes
  \<open>(2)\<close> and \<open>(3)\<close> makes \<open>contains\<close> raise the assertion error.
\<close>

theorem contains_raises_counterexample:
  "occurs dep_ops \<lparr>integrands = [(0::nat, [Argument ''x'' [2] 0, Other, Argument ''x'' [3] 0])], Ishape = []\<rparr> ''x'' \<and>
   contains dep_ops \<lparr>integrands = [(0::nat, [Argument ''x'' [2] 0, Other, Argument ''x'' [3] 0])], Ishape = []\<rparr> ''x''
     = Inl AssertionError \<and>
   contains dep_ops \<lparr>integrands = [(0::nat, [Argument ''x'' [2] 0, Other, Argument ''x'' [3] 0])], Ishape = []\<rparr> ''x''
     \<noteq> Inr True"
  by (simp add: occurs_def contains_def argshape_def arg_shapes_def all_dependencies_def dep_ops_def
      py_prefix_def Let_def)

theorem contains_iff_occurs_witness:
  "\<not> occurs dep_ops \<lparr>integrands = [(0::nat, [Argument ''x'' [2] 0, Other])], Ishape = []\<rparr> ''y'' \<and>
   argshape dep_ops \<lparr>integrands = [(0::nat, [Argument ''x'' [2] 0, Other])], Ishape = []\<rparr> ''y''
     = Inl (KeyError ''y'') \<and>
   contains dep_ops \<lparr>integrands = [(0::nat, [Argument ''x'' [2] 0, Other])], Ishape = []\<rparr> ''y'' = Inr False \<and>
   occurs dep_ops \<lparr>integrands = [(0::nat, [Argument ''x'' [2] 0, Other])], Ishape = []\<rparr> ''x'' \<and>
   length (arg_shapes dep_ops \<lparr>integrands = [(0::nat, [Argument ''x'' [2] 0, Other])], Ishape = []\<rparr> ''x'') = 1 \<and>
   argshape dep_ops \<lparr>integrands = [(0::nat, [Argument ''x'' [2] 0, Other])], Ishape = []\<rparr> ''x'' = Inr [2] \<and>
   contains dep_ops \<lparr>integrands = [(0::nat, [Argument ''x'' [2] 0, Other])], Ishape = []\<rparr> ''x'' = Inr True \<and>
   occurs dep_ops \<lparr>integrands = [(0::nat, [Argument ''x'' [2] 0]), (1, [Argument ''x'' [3] 0])], Ishape = []\<rparr> ''x'' \<and>
   length (arg_shapes dep_ops \<lparr>integrands = [(0::nat, [Argument ''x'' [2] 0]), (1, [Argument ''x'' [3] 0])], Ishape = []\<rparr> ''x'') \<noteq> 1 \<and>
   contains dep_ops \<lparr>integrands = [(0::nat, [Argument ''x'' [2] 0]), (1, [Argument ''x'' [3] 0])], Ishape = []\<rparr> ''x''
     = Inl AssertionError"
proof -
  let ?a = "\<lparr>integrands = [(0::nat, [Argument ''x'' [2] 0, Other])], Ishape = []\<rparr>"
  let ?b = "\<lparr>integrands = [(0::nat, [Argument ''x'' [2] 0]), (1, [Argument ''x'' [3] 0])], Ishape = []\<rparr>"
  have n: "\<not> occurs dep_ops ?a ''y''"
    by (simp add: occurs_def all_dependencies_def dep_ops_def)
  have o: "occurs dep_ops ?a ''x''"
    by (simp add: occurs_def all_dependencies_def dep_ops_def)
  have s: "arg_shapes dep_ops ?a ''x'' = [[2]]"
    by (simp add: arg_shapes_def all_dependencies_def dep_ops_def py_prefix_def)
  have ob: "occurs dep_ops ?b ''x''"
    by (simp add: occurs_def all_dependencies_def dep_ops_def)
  have sb: "arg_shapes dep_ops ?b ''x'' = [[2], [3]]"
    by (simp add: arg_shapes_def all_dependencies_def dep_ops_def py_prefix_def)
  from contains_iff_occurs[of dep_ops ?a "''y''"] n
  have c1: "argshape dep_ops ?a ''y'' = Inl (KeyError ''y'')" "contains dep_ops ?a ''y'' = Inr False"
    by blast+
  from contains_iff_occurs[of dep_ops ?a "''x''"] o s
  have c2: "argshape dep_ops ?a ''x'' = Inr [2]" "contains dep_ops ?a ''x'' = Inr True"
    by simp_all
  from contains_iff_occurs[of dep_ops ?b "''x''"] ob sb
  have c3: "contains dep_ops ?b ''x'' = Inl AssertionError"
    by simp
  from n c1 o s c2 ob sb c3 show ?thesis by simp
qed

subsection \<open>Evaluation into sparse data\<close>

lemma sequence_Inr:
  "sequence xs = Inr ys \<Longrightarrow> length ys = length xs \<and> (\<forall>i < length xs. xs ! i = Inr (ys ! i))"
proof (induction xs arbitrary: ys)
  case Nil
  then show ?case by simp
next
  case (Cons x xs)
  then obtain y ys' where x: "x = Inr y" and s: "sequence xs = Inr ys'" and ys: "ys = y # ys'"
    by (auto split: sum.splits)
  from Cons.IH[OF s] x ys show ?case
    by (auto simp: nth_Cons')
qed

lemma gather_fold_pairs:
  assumes "\<forall>(k, vs) \<in> set acc. \<forall>v \<in> set vs. (k, v) \<in> P" "set items \<subseteq> P"
  shows "\<forall>(k, vs) \<in> set (fold (\<lambda>(k, v) acc. case map_of acc k of
                           None \<Rightarrow> acc @ [(k, [v])]
                         | Some vs \<Rightarrow> AList.update k (vs @ [v]) acc) items acc). \<forall>v \<in> set vs. (k, v) \<in> P"
  using assms
proof (induction items arbitrary: acc)
  case Nil
  then show ?case by simp
next
  case (Cons it items)
  obtain k v where it: "it = (k, v)" by (cases it)
  let ?acc' = "case map_of acc k of None \<Rightarrow> acc @ [(k, [v])]
                 | Some vs \<Rightarrow> AList.update k (vs @ [v]) acc"
  from Cons.prems(2) have v: "(k, v) \<in> P" and rest: "set items \<subseteq> P" by (auto simp: it)
  have "\<forall>(k, vs) \<in> set ?acc'. \<forall>v \<in> set vs. (k, v) \<in> P"
  proof (cases "map_of acc k")
    case None
    with Cons.prems(1) v show ?thesis by auto
  next
    case (Some vs)
    then have "(k, vs) \<in> set acc" by (rule map_of_SomeD)
    with Cons.prems(1) have "\<forall>w \<in> set vs. (k, w) \<in> P" by auto
    with v have new: "\<forall>w \<in> set (vs @ [v]). (k, w) \<in> P" by simp
    have sub: "set (AList.update k (vs @ [v]) acc) \<subseteq> insert (k, vs @ [v]) (set acc)"
      by (induction acc) auto
    show ?thesis
    proof (simp only: Some option.case, intro ballI)
      fix x assume "x \<in> set (AList.update k (vs @ [v]) acc)"
      with sub have "x = (k, vs @ [v]) \<or> x \<in> set acc" by auto
      then show "case x of (k, vs) \<Rightarrow> \<forall>v \<in> set vs. (k, v) \<in> P"
        using Cons.prems(1) new by auto
    qed
  qed
  from Cons.IH[OF this rest] show ?case by (simp add: it)
qed

lemma gather_pairs:
  "(k, vs) \<in> set (gather items) \<Longrightarrow> v \<in> set vs \<Longrightarrow> (k, v) \<in> set items"
  using gather_fold_pairs[of "[]" "set items" items]
  by (auto simp: gather_def)

lemma gather_values:
  "(k, vs) \<in> set (gather items) \<Longrightarrow> set vs \<subseteq> snd ` set items"
  by (force dest: gather_pairs)

lemma append_retvals_props:
  "length (append_retvals iints datas retvals) = length retvals \<and>
   (\<forall>i < length retvals. (\<exists>extra. append_retvals iints datas retvals ! i = retvals ! i @ extra) \<and>
      (i \<notin> set iints \<longrightarrow> append_retvals iints datas retvals ! i = retvals ! i))"
proof -
  have "length (fold (\<lambda>(iint, retval) rv. rv[iint := rv ! iint @ [retval]]) ps retvals) = length retvals \<and>
     (\<forall>i < length retvals.
        (\<exists>extra. fold (\<lambda>(iint, retval) rv. rv[iint := rv ! iint @ [retval]]) ps retvals ! i = retvals ! i @ extra) \<and>
        (i \<notin> fst ` set ps \<longrightarrow> fold (\<lambda>(iint, retval) rv. rv[iint := rv ! iint @ [retval]]) ps retvals ! i = retvals ! i))"
    for ps :: "(nat \<times> sparse) list"
  proof (induction ps arbitrary: retvals)
    case Nil
    then show ?case by simp
  next
    case (Cons p ps)
    obtain j r where p: "p = (j, r)" by (cases p)
    let ?rv = "retvals[j := retvals ! j @ [r]]"
    note ih = Cons.IH[of ?rv]
    show ?case
    proof (intro conjI allI impI)
      show "length (fold (\<lambda>(iint, retval) rv. rv[iint := rv ! iint @ [retval]]) (p # ps) retvals) = length retvals"
        using ih by (simp add: p)
    next
      fix i assume i: "i < length retvals"
      then have i': "i < length ?rv" by simp
      from ih i' obtain extra where
        e: "fold (\<lambda>(iint, retval) rv. rv[iint := rv ! iint @ [retval]]) ps ?rv ! i = ?rv ! i @ extra"
        by blast
      have "\<exists>e0. ?rv ! i = retvals ! i @ e0"
        using i by (cases "i = j") (auto simp: nth_list_update)
      then obtain e0 where "?rv ! i = retvals ! i @ e0" ..
      with e show "\<exists>extra. fold (\<lambda>(iint, retval) rv. rv[iint := rv ! iint @ [retval]]) (p # ps) retvals ! i
          = retvals ! i @ extra"
        by (simp add: p)
    next
      fix i assume i: "i < length retvals" and ni: "i \<notin> fst ` set (p # ps)"
      then have i': "i < length ?rv" and nj: "i \<noteq> j" and nps: "i \<notin> fst ` set ps"
        by (auto simp: p)
      from ih i' nps have "fold (\<lambda>(iint, retval) rv. rv[iint := rv ! iint @ [retval]]) ps ?rv ! i = ?rv ! i"
        by blast
      with nj show "fold (\<lambda>(iint, retval) rv. rv[iint := rv ! iint @ [retval]]) (p # ps) retvals ! i = retvals ! i"
        by (simp add: p)
    qed
  qed
  from this[of "zip iints datas" ] show ?thesis
    unfolding append_retvals_def
    by (metis (no_types, lifting) in_set_zipE image_iff prod.collapse)
qed

lemma eval_samples_props:
  assumes "eval_samples integ integrals gathered retvals = Inr rvs"
  shows "length rvs = length retvals \<and>
    (\<forall>i < length retvals. (\<exists>extra. rvs ! i = retvals ! i @ extra) \<and>
       ((\<forall>(sample, iints) \<in> set gathered. i \<notin> set iints) \<longrightarrow> rvs ! i = retvals ! i))"
  using assms
proof (induction gathered arbitrary: retvals)
  case Nil
  then show ?case by simp
next
  case (Cons g gathered)
  obtain sample iints where g: "g = (sample, iints)" by (cases g)
  from Cons.prems obtain funcs datas where
    r: "eval_samples integ integrals gathered (append_retvals iints datas retvals) = Inr rvs"
    by (auto simp: g split: sum.splits)
  note ih = Cons.IH[OF r]
  note ap = append_retvals_props[of iints datas retvals]
  show ?case
  proof (intro conjI allI impI)
    show "length rvs = length retvals" using ih ap by simp
  next
    fix i assume i: "i < length retvals"
    then have i': "i < length (append_retvals iints datas retvals)" using ap by simp
    from ih i' obtain e1 where "rvs ! i = append_retvals iints datas retvals ! i @ e1" by blast
    moreover from ap i obtain e0 where "append_retvals iints datas retvals ! i = retvals ! i @ e0" by blast
    ultimately show "\<exists>extra. rvs ! i = retvals ! i @ extra" by simp
  next
    fix i assume i: "i < length retvals" and n: "\<forall>(sample, iints) \<in> set (g # gathered). i \<notin> set iints"
    then have i': "i < length (append_retvals iints datas retvals)" using ap by simp
    from n have n1: "i \<notin> set iints" and n2: "\<forall>(sample, iints) \<in> set gathered. i \<notin> set iints"
      by (auto simp: g)
    from ih i' n2 have "rvs ! i = append_retvals iints datas retvals ! i" by blast
    with ap i n1 show "rvs ! i = retvals ! i" by simp
  qed
qed

lemma add_empty: "add [empty shp] = Inr (empty shp)"
  by (simp add: add_def empty_def result_type_def)

lemma obligations_indices:
  "(di, iint) \<in> set (concat (map (\<lambda>(iint, integral). map (\<lambda>(di, func). (di, iint)) (integrands integral))
                  (enumerate n integrals)))
   \<Longrightarrow> n \<le> iint \<and> iint < n + length integrals \<and> integrands (integrals ! (iint - n)) \<noteq> []"
proof (induction integrals arbitrary: n)
  case Nil
  then show ?case by simp
next
  case (Cons I integrals)
  from Cons.prems have
    "(di, iint) \<in> set (map (\<lambda>(di, func). (di, n)) (integrands I))
     \<or> (di, iint) \<in> set (concat (map (\<lambda>(iint, integral). map (\<lambda>(di, func). (di, iint)) (integrands integral))
                  (enumerate (Suc n) integrals)))"
    by simp
  then consider
    (here) "(di, iint) \<in> set (map (\<lambda>(di, func). (di, n)) (integrands I))"
    | (later) "(di, iint) \<in> set (concat (map (\<lambda>(iint, integral). map (\<lambda>(di, func). (di, iint)) (integrands integral))
                  (enumerate (Suc n) integrals)))"
    by blast
  then show ?case
  proof cases
    case here
    then have "iint = n" "integrands I \<noteq> []" by auto
    then show ?thesis by simp
  next
    case later
    from Cons.IH[OF later] show ?thesis
      by (auto simp: nth_Cons' Suc_diff_le)
  qed
qed

lemma eval_retvals_props:
  assumes "eval_retvals integ integrals = Inr rvs"
  shows "length rvs = length integrals \<and>
    (\<forall>i < length integrals.
       (\<exists>contrib. rvs ! i = empty (Ishape (integrals ! i)) # contrib) \<and>
       (integrands (integrals ! i) = [] \<longrightarrow> rvs ! i = [empty (Ishape (integrals ! i))]))"
proof -
  define items where "items = concat (map (\<lambda>(iint, integral).
      map (\<lambda>(di, func). (di, iint)) (integrands integral)) (enumerate 0 integrals))"
  define init where "init = map (\<lambda>integral. [empty (Ishape integral)]) integrals"
  from assms have e: "eval_samples integ integrals (gather items) init = Inr rvs"
    by (simp add: eval_retvals_def items_def init_def)
  note p = eval_samples_props[OF e]
  have li: "length init = length integrals" by (simp add: init_def)
  have ni: "init ! i = [empty (Ishape (integrals ! i))]" if "i < length integrals" for i
    using that by (simp add: init_def)
  show ?thesis
  proof (intro conjI allI impI)
    show "length rvs = length integrals" using p li by simp
  next
    fix i assume i: "i < length integrals"
    with p li obtain extra where "rvs ! i = init ! i @ extra" by metis
    with ni[OF i] show "\<exists>contrib. rvs ! i = empty (Ishape (integrals ! i)) # contrib" by simp
  next
    fix i assume i: "i < length integrals" and em: "integrands (integrals ! i) = []"
    have "\<forall>(sample, iints) \<in> set (gather items). i \<notin> set iints"
    proof (intro ballI, clarify)
      fix sample iints assume g: "(sample, iints) \<in> set (gather items)" and m: "i \<in> set iints"
      from gather_values[OF g] m have "i \<in> snd ` set items" by blast
      then obtain di where "(di, i) \<in> set items" by (metis imageE prod.collapse)
      then have "(di, i) \<in> set (concat (map (\<lambda>(iint, integral).
          map (\<lambda>(di, func). (di, iint)) (integrands integral)) (enumerate 0 integrals)))"
        by (simp only: items_def)
      from obligations_indices[OF this] em show False by simp
    qed
    with p i li have "rvs ! i = init ! i" by metis
    with ni[OF i] show "rvs ! i = [empty (Ishape (integrals ! i))]" by simp
  qed
qed

lemma sequence_map_Inr: "sequence (map (\<lambda>x. Inr (f x)) xs) = Inr (map f xs)"
  by (induction xs) auto

lemma sequence_all_Inr:
  assumes "\<forall>x \<in> set xs. \<exists>y. g x = Inr y"
  shows "\<exists>ys. sequence (map g xs) = Inr ys \<and> length ys = length xs \<and>
           (\<forall>j < length xs. g (xs ! j) = Inr (ys ! j))"
  using assms
proof (induction xs)
  case Nil
  then show ?case by simp
next
  case (Cons x xs)
  then obtain y where y: "g x = Inr y" by auto
  from Cons obtain ys where ys: "sequence (map g xs) = Inr ys" "length ys = length xs"
      "\<forall>j < length xs. g (xs ! j) = Inr (ys ! j)" by auto
  have "sequence (map g (x # xs)) = Inr (y # ys)" by (simp add: y ys(1))
  moreover have "\<forall>j < length (x # xs). g ((x # xs) ! j) = Inr ((y # ys) ! j)"
    using y ys(3) by (auto simp: nth_Cons')
  ultimately show ?case using ys(2) by (intro exI[of _ "y # ys"]) simp
qed

lemma add_same_shape:
  assumes "ds \<noteq> []" "\<forall>d \<in> set ds. shape d = s"
  shows "\<exists>r. add ds = Inr r"
proof -
  from assms(1) obtain d ds' where ds: "ds = d # ds'" by (cases ds) auto
  with assms(2) have "list_all (\<lambda>d'. shape d' = shape d) ds'" by (simp add: list_all_iff)
  then show ?thesis by (simp add: ds add_def)
qed

lemma append_retvals_ok:
  assumes "retvals_ok integrals retvals"
    and "\<forall>(iint, d) \<in> set ps. iint < length integrals \<and> shape d = Ishape (integrals ! iint)"
  shows "retvals_ok integrals (fold (\<lambda>(iint, retval) rv. rv[iint := rv ! iint @ [retval]]) ps retvals)"
  using assms
proof (induction ps arbitrary: retvals)
  case Nil
  then show ?case by simp
next
  case (Cons p ps)
  obtain j d where p: "p = (j, d)" by (cases p)
  from Cons.prems(2) have j: "j < length integrals" and sd: "shape d = Ishape (integrals ! j)"
    and rest: "\<forall>(iint, d) \<in> set ps. iint < length integrals \<and> shape d = Ishape (integrals ! iint)"
    by (auto simp: p)
  have "retvals_ok integrals (retvals[j := retvals ! j @ [d]])"
    using Cons.prems(1) j sd
    by (auto simp: retvals_ok_def nth_list_update)
  from Cons.IH[OF this rest] show ?case by (simp add: p)
qed

lemma eval_samples_returns:
  assumes integ_ok: "\<forall>sample funcs. \<exists>datas. integ sample funcs = Inr datas \<and>
                        map shape datas = map (fshape ops) funcs"
    and shapes: "\<forall>integral \<in> set integrals. \<forall>(di, func) \<in> set (integrands integral).
                        fshape ops func = Ishape integral"
    and gath: "\<forall>(sample, iints) \<in> set gathered. \<forall>iint \<in> set iints.
                 iint < length integrals \<and> sample \<in> fst ` set (integrands (integrals ! iint))"
    and inv: "retvals_ok integrals retvals"
  shows "\<exists>rvs. eval_samples integ integrals gathered retvals = Inr rvs \<and> retvals_ok integrals rvs"
  using gath inv
proof (induction gathered arbitrary: retvals)
  case Nil
  then show ?case by simp
next
  case (Cons g gathered)
  obtain sample iints where g: "g = (sample, iints)" by (cases g)
  from Cons.prems(1) have here: "\<forall>iint \<in> set iints.
      iint < length integrals \<and> sample \<in> fst ` set (integrands (integrals ! iint))"
    and rest: "\<forall>(sample, iints) \<in> set gathered. \<forall>iint \<in> set iints.
                 iint < length integrals \<and> sample \<in> fst ` set (integrands (integrals ! iint))"
    by (auto simp: g)
  let ?get = "\<lambda>iint. getitem (integrands (integrals ! iint)) sample"
  have "\<forall>iint \<in> set iints. \<exists>f. ?get iint = Inr f"
  proof
    fix iint assume "iint \<in> set iints"
    with here have "sample \<in> fst ` set (integrands (integrals ! iint))" by blast
    then have "map_of (integrands (integrals ! iint)) sample \<noteq> None"
      by (simp add: map_of_eq_None_iff)
    then show "\<exists>f. ?get iint = Inr f" by (auto simp: getitem_def)
  qed
  from sequence_all_Inr[OF this] obtain funcs where
    fs: "sequence (map ?get iints) = Inr funcs" "length funcs = length iints"
        "\<forall>j < length iints. ?get (iints ! j) = Inr (funcs ! j)"
    by blast
  from integ_ok obtain datas where
    ds: "integ sample funcs = Inr datas" "map shape datas = map (fshape ops) funcs"
    by blast
  from ds(2) have ld: "length datas = length funcs" by (metis length_map)
  have pairs: "\<forall>(iint, d) \<in> set (zip iints datas).
      iint < length integrals \<and> shape d = Ishape (integrals ! iint)"
  proof (intro ballI, clarify)
    fix iint d assume "(iint, d) \<in> set (zip iints datas)"
    then obtain j where j: "j < length iints" "j < length datas" "iints ! j = iint" "datas ! j = d"
      by (auto simp: in_set_zip)
    from j(1,3) here have il: "iint < length integrals" by (metis nth_mem)
    from fs(3) j(1,3) have "getitem (integrands (integrals ! iint)) sample = Inr (funcs ! j)" by auto
    then have "map_of (integrands (integrals ! iint)) sample = Some (funcs ! j)"
      by (auto simp: getitem_def split: option.splits)
    then have "(sample, funcs ! j) \<in> set (integrands (integrals ! iint))" by (rule map_of_SomeD)
    with shapes il have "fshape ops (funcs ! j) = Ishape (integrals ! iint)"
      by (metis (mono_tags, lifting) case_prodD nth_mem)
    moreover from ds(2) j(1,2) fs(2) have "shape (datas ! j) = fshape ops (funcs ! j)"
      by (metis length_map nth_map)
    ultimately show "iint < length integrals \<and> shape d = Ishape (integrals ! iint)"
      using il j(4) by simp
  qed
  have ok: "retvals_ok integrals (append_retvals iints datas retvals)"
    unfolding append_retvals_def by (rule append_retvals_ok[OF Cons.prems(2) pairs])
  from Cons.IH[OF rest ok] show ?case
    by (simp add: g fs(1) ds(1))
qed

lemma obligations_samples:
  "(di, iint) \<in> set (concat (map (\<lambda>(iint, integral). map (\<lambda>(di, func). (di, iint)) (integrands integral))
                  (enumerate n integrals)))
   \<Longrightarrow> n \<le> iint \<and> iint < n + length integrals \<and> di \<in> fst ` set (integrands (integrals ! (iint - n)))"
proof (induction integrals arbitrary: n)
  case Nil
  then show ?case by simp
next
  case (Cons I integrals)
  from Cons.prems have
    "(di, iint) \<in> set (map (\<lambda>(di, func). (di, n)) (integrands I))
     \<or> (di, iint) \<in> set (concat (map (\<lambda>(iint, integral). map (\<lambda>(di, func). (di, iint)) (integrands integral))
                  (enumerate (Suc n) integrals)))"
    by simp
  then consider
    (here) "(di, iint) \<in> set (map (\<lambda>(di, func). (di, n)) (integrands I))"
    | (later) "(di, iint) \<in> set (concat (map (\<lambda>(iint, integral). map (\<lambda>(di, func). (di, iint)) (integrands integral))
                  (enumerate (Suc n) integrals)))"
    by blast
  then show ?case
  proof cases
    case here
    then have "iint = n" "di \<in> fst ` set (integrands I)" by force+
    then show ?thesis by simp
  next
    case later
    from Cons.IH[OF later] show ?thesis
      by (auto simp: nth_Cons' Suc_diff_le)
  qed
qed

lemma eval_integrals_sparse_returns:
  assumes integ_ok: "\<forall>sample funcs. \<exists>datas. integ sample funcs = Inr datas \<and>
                        map shape datas = map (fshape ops) funcs"
    and shapes: "\<forall>integral \<in> set integrals. \<forall>(di, func) \<in> set (integrands integral).
                        fshape ops func = Ishape integral"
  shows "\<exists>rs. eval_integrals_sparse integ integrals = Inr rs"
proof -
  define items where "items = concat (map (\<lambda>(iint, integral).
      map (\<lambda>(di, func). (di, iint)) (integrands integral)) (enumerate 0 integrals))"
  define init where "init = map (\<lambda>integral. [empty (Ishape integral)]) integrals"
  have gath: "\<forall>(sample, iints) \<in> set (gather items). \<forall>iint \<in> set iints.
                 iint < length integrals \<and> sample \<in> fst ` set (integrands (integrals ! iint))"
  proof (intro ballI, clarify)
    fix sample iints iint assume "(sample, iints) \<in> set (gather items)" "iint \<in> set iints"
    then have "(sample, iint) \<in> set items" by (rule gather_pairs)
    then have "(sample, iint) \<in> set (concat (map (\<lambda>(iint, integral).
          map (\<lambda>(di, func). (di, iint)) (integrands integral)) (enumerate 0 integrals)))"
      by (simp only: items_def)
    from obligations_samples[OF this]
    show "iint < length integrals \<and> sample \<in> fst ` set (integrands (integrals ! iint))" by simp
  qed
  have inv: "retvals_ok integrals init"
    by (simp add: retvals_ok_def init_def empty_def)
  from eval_samples_returns[OF integ_ok shapes gath inv] obtain rvs where
    rv: "eval_samples integ integrals (gather items) init = Inr rvs" and ok: "retvals_ok integrals rvs"
    by blast
  have "\<forall>rv \<in> set rvs. \<exists>r. add rv = Inr r"
  proof
    fix rv assume "rv \<in> set rvs"
    then obtain i where i: "i < length rvs" "rvs ! i = rv" by (auto simp: in_set_conv_nth)
    with ok have "rv \<noteq> []" "\<forall>d \<in> set rv. shape d = Ishape (integrals ! i)"
      by (auto simp: retvals_ok_def)
    then show "\<exists>r. add rv = Inr r" by (rule add_same_shape)
  qed
  from sequence_all_Inr[OF this] obtain rs where "sequence (map add rvs) = Inr rs" by blast
  with rv show ?thesis
    by (auto simp: eval_integrals_sparse_def eval_retvals_def items_def init_def)
qed

text \<open>
  Claim C10. When \<^verbatim>\<open>eval_integrals_sparse\<close> returns, it returns one result per
  Integral; every list of \<^verbatim>\<open>retvals\<close> starts with the empty collection of the
  Integral's shape, before any contribution of a sample; the result of an Integral
  without terms is that empty collection; a tuple of Integrals without terms evaluates,
  without raising, to the empty collections of their shapes; and for any tuple the call
  returns whenever the integration of a sample does not raise and yields data of the
  shapes of its integrands, the integrands having the shape of their Integral.
\<close>

theorem eval_integrals_sparse_one_result_each:
  "(\<forall>rvs. eval_retvals integ integrals = Inr rvs \<longrightarrow>
      length rvs = length integrals \<and>
      (\<forall>i < length integrals. \<exists>contrib. rvs ! i = empty (Ishape (integrals ! i)) # contrib)) \<and>
   (\<forall>rs. eval_integrals_sparse integ integrals = Inr rs \<longrightarrow>
      length rs = length integrals \<and>
      (\<forall>i < length integrals. integrands (integrals ! i) = [] \<longrightarrow>
         rs ! i = empty (Ishape (integrals ! i)))) \<and>
   (list_all (\<lambda>integral. integrands integral = []) integrals \<longrightarrow>
      eval_integrals_sparse integ integrals = Inr (map (\<lambda>integral. empty (Ishape integral)) integrals)) \<and>
   ((\<forall>sample funcs. \<exists>datas. integ sample funcs = Inr datas \<and>
        map shape datas = map (fshape ops) funcs) \<and>
    list_all (\<lambda>integral. list_all (\<lambda>(di, func). fshape ops func = Ishape integral)
        (integrands integral)) integrals \<longrightarrow>
      (\<exists>rs. eval_integrals_sparse integ integrals = Inr rs \<and> length rs = length integrals))"
proof (intro conjI allI impI)
  fix rvs assume "eval_retvals integ integrals = Inr rvs"
  from eval_retvals_props[OF this]
  show "length rvs = length integrals"
    and "\<And>i. i < length integrals \<Longrightarrow> \<exists>contrib. rvs ! i = empty (Ishape (integrals ! i)) # contrib"
    by blast+
next
  fix rs assume r: "eval_integrals_sparse integ integrals = Inr rs"
  then obtain rvs where rv: "eval_retvals integ integrals = Inr rvs"
    and sq: "sequence (map add rvs) = Inr rs"
    by (auto simp: eval_integrals_sparse_def split: sum.splits)
  note p = eval_retvals_props[OF rv]
  note q = sequence_Inr[OF sq]
  show "length rs = length integrals" using p q by simp
  fix i assume i: "i < length integrals" and em: "integrands (integrals ! i) = []"
  with p have "rvs ! i = [empty (Ishape (integrals ! i))]" by blast
  moreover from q i p have "add (rvs ! i) = Inr (rs ! i)" by simp
  ultimately show "rs ! i = empty (Ishape (integrals ! i))" by (simp add: add_empty)
next
  assume a: "list_all (\<lambda>integral. integrands integral = []) integrals"
  have c: "concat (map (\<lambda>(iint, integral). map (\<lambda>(di, func). (di, iint)) (integrands integral))
                  (enumerate n integrals)) = []" for n
    using a by (induction integrals arbitrary: n) auto
  have "eval_retvals integ integrals = Inr (map (\<lambda>integral. [empty (Ishape integral)]) integrals)"
    by (simp only: eval_retvals_def c gather_def fold_simps eval_samples.simps)
  then show "eval_integrals_sparse integ integrals = Inr (map (\<lambda>integral. empty (Ishape integral)) integrals)"
    by (simp add: eval_integrals_sparse_def comp_def add_empty sequence_map_Inr)
next
  assume h: "(\<forall>sample funcs. \<exists>datas. integ sample funcs = Inr datas \<and>
        map shape datas = map (fshape ops) funcs) \<and>
    list_all (\<lambda>integral. list_all (\<lambda>(di, func). fshape ops func = Ishape integral)
        (integrands integral)) integrals"
  then have h1: "\<forall>sample funcs. \<exists>datas. integ sample funcs = Inr datas \<and>
        map shape datas = map (fshape ops) funcs"
    and h2: "\<forall>integral \<in> set integrals. \<forall>(di, func) \<in> set (integrands integral).
                        fshape ops func = Ishape integral"
    by (simp_all add: list_all_iff)
  from eval_integrals_sparse_returns[OF h1 h2] obtain rs where
    rs: "eval_integrals_sparse integ integrals = Inr rs" by blast
  then obtain rvs where rv: "eval_retvals integ integrals = Inr rvs"
    and sq: "sequence (map add rvs) = Inr rs"
    by (auto simp: eval_integrals_sparse_def split: sum.splits)
  from eval_retvals_props[OF rv] sequence_Inr[OF sq] have "length rs = length integrals" by simp
  with rs show "\<exists>rs. eval_integrals_sparse integ integrals = Inr rs \<and> length rs = length integrals"
    by blast
qed

theorem eval_integrals_sparse_one_result_each_witness:
  "(\<forall>sample funcs. \<exists>datas. example_integ sample funcs = Inr datas \<and>
        map shape datas = map (fshape const_ops) funcs) \<and>
   list_all (\<lambda>integral. list_all (\<lambda>(di, func). fshape const_ops func = Ishape integral)
        (integrands integral))
      [\<lparr>integrands = [(2::nat, 3::int)], Ishape = []\<rparr>, \<lparr>integrands = [], Ishape = [4]\<rparr>] \<and>
   eval_retvals example_integ
      [\<lparr>integrands = [(2, 3)], Ishape = []\<rparr>, \<lparr>integrands = [], Ishape = [4]\<rparr>]
     = Inr [[empty [], \<lparr>shape = [], dtype = FloatType, recs = [([], 6)]\<rparr>], [empty [4]]] \<and>
   eval_integrals_sparse example_integ
      [\<lparr>integrands = [(2, 3)], Ishape = []\<rparr>, \<lparr>integrands = [], Ishape = [4]\<rparr>]
     = Inr [\<lparr>shape = [], dtype = FloatType, recs = [([], 6)]\<rparr>, empty [4]] \<and>
   (1::nat) < length [\<lparr>integrands = [(2::nat, 3::int)], Ishape = []\<rparr>, \<lparr>integrands = [], Ishape = [4]\<rparr>] \<and>
   integrands ([\<lparr>integrands = [(2::nat, 3::int)], Ishape = []\<rparr>, \<lparr>integrands = [], Ishape = [4]\<rparr>] ! 1) = [] \<and>
   list_all (\<lambda>integral. integrands integral = []) [\<lparr>integrands = [] :: (nat \<times> int) list, Ishape = [4]\<rparr>] \<and>
   eval_integrals_sparse example_integ [\<lparr>integrands = [], Ishape = [4]\<rparr>] = Inr [empty [4]]"
proof -
  let ?Is = "[\<lparr>integrands = [(2::nat, 3::int)], Ishape = []\<rparr>, \<lparr>integrands = [], Ishape = [4]\<rparr>]"
  have io: "\<forall>sample funcs. \<exists>datas. example_integ sample funcs = Inr datas \<and>
        map shape datas = map (fshape const_ops) funcs"
    by (simp add: example_integ_def const_ops_def comp_def)
  have sh: "list_all (\<lambda>integral. list_all (\<lambda>(di, func). fshape const_ops func = Ishape integral)
        (integrands integral)) ?Is"
    by (simp add: const_ops_def)
  have rv: "eval_retvals example_integ ?Is
     = Inr [[empty [], \<lparr>shape = [], dtype = FloatType, recs = [([], 6)]\<rparr>], [empty [4]]]"
    by code_simp
  have l: "(1::nat) < length ?Is" by simp
  have e: "integrands (?Is ! 1) = []" by simp
  have a: "list_all (\<lambda>integral. integrands integral = []) [\<lparr>integrands = [] :: (nat \<times> int) list, Ishape = [4]\<rparr>]"
    by simp
  from eval_integrals_sparse_one_result_each[of example_integ "[\<lparr>integrands = [], Ishape = [4]\<rparr>]" const_ops] a
  have one: "eval_integrals_sparse example_integ [\<lparr>integrands = [], Ishape = [4]\<rparr>] = Inr [empty [4]]"
    by simp
  note t = eval_integrals_sparse_one_result_each[of example_integ ?Is const_ops]
  from t io sh obtain rs where rs: "eval_integrals_sparse example_integ ?Is = Inr rs"
    and lrs: "length rs = length ?Is"
    by blast
  then obtain r0 r1 where rs2: "rs = [r0, r1]"
    by (cases rs; cases "tl rs"; cases "tl (tl rs)") auto
  from t rs l e have "rs ! 1 = empty (Ishape (?Is ! 1))" by blast
  with rs2 have r1: "r1 = empty [4]" by simp
  from rs rv have "sequence (map add [[empty [], \<lparr>shape = [], dtype = FloatType, recs = [([], 6)]\<rparr>], [empty [4]]]) = Inr rs"
    by (simp add: eval_integrals_sparse_def)
  then have "add [empty [], \<lparr>shape = [], dtype = FloatType, recs = [([], 6)]\<rparr>] = Inr r0"
    by (auto simp: rs2 split: sum.splits)
  then have r0: "r0 = \<lparr>shape = [], dtype = FloatType, recs = [([], 6)]\<rparr>"
    by (simp add: add_def empty_def result_type_def store_def)
  from rs rs2 r0 r1 have res: "eval_integrals_sparse example_integ ?Is
     = Inr [\<lparr>shape = [], dtype = FloatType, recs = [([], 6)]\<rparr>, empty [4]]" by simp
  from io sh rv res l e a one show ?thesis by (intro conjI)
qed

end
